theory Spec2Isabelle
  imports Main
begin

section \<open>Python values used by the watcher\<close>

text \<open>
  Strings are byte strings; \<open>str.strip\<close> and \<open>str.lower\<close> are modelled on the ASCII
  range. An optional attribute read with \<open>getattr(x, name, None)\<close> is an option, and an
  attribute that is absent reads as \<open>None\<close>.
\<close>

definition isspace :: "char \<Rightarrow> bool" where
  "isspace c = (let n = (of_char c :: nat) in (9 \<le> n \<and> n \<le> 13) \<or> (28 \<le> n \<and> n \<le> 32))"

definition strip :: "string \<Rightarrow> string" where
  "strip s = rev (dropWhile isspace (rev (dropWhile isspace s)))"

definition lower_char :: "char \<Rightarrow> char" where
  "lower_char c = (let n = (of_char c :: nat) in if 65 \<le> n \<and> n \<le> 90 then char_of (n + 32) else c)"

definition lower :: "string \<Rightarrow> string" where
  "lower s = map lower_char s"

text \<open>Truthiness of an optional string (\<open>if s:\<close>) and Python's \<open>a or b\<close> on such values.\<close>

definition truthy_str :: "string option \<Rightarrow> bool" where
  "truthy_str s = (case s of None \<Rightarrow> False | Some t \<Rightarrow> t \<noteq> [])"

definition or_str :: "string option \<Rightarrow> string option \<Rightarrow> string option" where
  "or_str a b = (if truthy_str a then a else b)"

text \<open>\<open>str(n)\<close> for an integer and for an optional integer (\<open>None\<close> prints as \<open>None\<close>).\<close>

function str_nat :: "nat \<Rightarrow> string" where
  "str_nat n = (if n < 10 then [char_of (48 + n)] else str_nat (n div 10) @ [char_of (48 + n mod 10)])"
  by pat_completeness auto
termination
  by (relation "measure id") auto

declare str_nat.simps [simp del]

definition str_int :: "int \<Rightarrow> string" where
  "str_int i = (if i < 0 then CHR ''-'' # str_nat (nat (- i)) else str_nat (nat i))"

definition str_int_option :: "int option \<Rightarrow> string" where
  "str_int_option v = (case v of None \<Rightarrow> ''None'' | Some i \<Rightarrow> str_int i)"

section \<open>Configuration\<close>

text \<open>
  The module-level constants read from the environment. \<open>watch_chat_ids\<close> and
  \<open>watch_usernames\<close> are the two sets the module builds from \<open>WATCH_CHATS\<close> when it
  is not \<open>all\<close>.
\<close>

record config =
  WATCH_CHATS :: string
  watch_chat_ids :: "int set"
  watch_usernames :: "string set"
  IGNORE_CHAT_IDS :: "int set"
  BACKFILL_MESSAGE_LIMIT :: int
  BACKFILL_DAYS :: int
  BACKEND_CONTACT_LIST_URL :: "string option"
  BACKEND_ACCOUNT_KEY :: "string option"
  ACCOUNT_ID_NUM :: "int option"

section \<open>Transport objects\<close>

record entity =
  class_name :: string
  entity_id :: "int option"
  username :: "string option"
  title :: "string option"
  first_name :: "string option"
  is_self :: bool

datatype sender_result = SenderRaises | Sender "entity option"

text \<open>
  A message. \<open>msg_id\<close> is always an integer, as the client delivers it, so the test
  for a missing id in the backfill walk never fires; \<open>msg_date\<close> is the timestamp in
  seconds, already read in UTC (a naive date is taken as UTC by the source); \<open>media\<close>
  is the truthiness of the media attribute; \<open>sender_id\<close> is the attribute of that name,
  which a message always has; \<open>get_sender\<close> is what awaiting
  \<open>message.get_sender()\<close> gives.
\<close>

record message =
  msg_id :: int
  raw_text :: "string option"
  msg_message :: "string option"
  media :: bool
  msg_date :: "int option"
  sender_id :: "int option"
  get_sender :: sender_result

record dialog =
  dlg_entity :: entity
  unread_count :: int
  dlg_name :: "string option"

text \<open>
  The client: the dialogs \<open>iter_dialogs\<close> yields, and the two ways of reading a chat's
  messages (both newest first). \<open>iter_messages\<close> may yield \<open>None\<close> items, which the
  backfill skips.
\<close>

record client =
  iter_dialogs :: "dialog list"
  get_messages :: "entity \<Rightarrow> int \<Rightarrow> message list"
  iter_messages :: "entity \<Rightarrow> int option \<Rightarrow> message option list"

section \<open>Notification payload and backend\<close>

record payload =
  p_chat_id :: "int option"
  p_chat_title :: "string option"
  p_chat_username :: "string option"
  p_sender_id :: "int option"
  p_sender_username :: "string option"
  p_sender_name :: "string option"
  p_message :: string
  p_message_id :: int
  p_date :: "int option"
  p_unread_count :: "int option"
  p_cron_mode :: bool
  p_has_media :: "bool option"
  p_history :: bool
  p_account_key :: "string option"
  p_account_id :: "int option"

text \<open>
  The backend answers the n-th notify call of a run with success or failure; the answer
  may depend on the call's position and on the body posted. An attempt records the state
  key of the chat being reconciled, the body posted and the answer; the list of attempts
  of a run is the trace of its calls to \<open>send_to_backend\<close>, in order.
\<close>

type_synonym backend = "nat \<Rightarrow> payload \<Rightarrow> bool"

record attempt =
  att_key :: string
  att_body :: payload
  att_ok :: bool

text \<open>The two \<open>setdefault\<close> calls that add the account fields to the body.\<close>

definition with_account :: "config \<Rightarrow> payload \<Rightarrow> payload" where
  "with_account cfg p =
     (let p1 = (if truthy_str (BACKEND_ACCOUNT_KEY cfg)
                then p\<lparr>p_account_key := BACKEND_ACCOUNT_KEY cfg\<rparr> else p)
      in if ACCOUNT_ID_NUM cfg \<noteq> None
         then p1\<lparr>p_account_id := ACCOUNT_ID_NUM cfg\<rparr> else p1)"

definition send_to_backend :: "config \<Rightarrow> backend \<Rightarrow> nat \<Rightarrow> payload \<Rightarrow> payload \<times> bool" where
  "send_to_backend cfg net n p = (let body = with_account cfg p in (body, net n body))"

section \<open>Contact filter\<close>

definition should_forward :: "config \<Rightarrow> entity option \<Rightarrow> bool" where
  "should_forward cfg event_chat =
     (if lower (WATCH_CHATS cfg) = ''all'' then True
      else case event_chat of
        None \<Rightarrow> False
      | Some c \<Rightarrow>
          (if (case entity_id c of None \<Rightarrow> False
               | Some i \<Rightarrow> i \<noteq> 0 \<and> i \<in> watch_chat_ids cfg) then True
           else if (case username c of None \<Rightarrow> False
               | Some u \<Rightarrow> u \<noteq> [] \<and> lower u \<in> watch_usernames cfg) then True
           else if (case title c of None \<Rightarrow> False
               | Some t \<Rightarrow> t \<noteq> [] \<and> lower t \<in> watch_usernames cfg) then True
           else False))"

definition is_ignored :: "config \<Rightarrow> int option \<Rightarrow> bool" where
  "is_ignored cfg chat_id = (case chat_id of None \<Rightarrow> False | Some i \<Rightarrow> i \<in> IGNORE_CHAT_IDS cfg)"

definition matches_contact :: "int set \<Rightarrow> string set \<Rightarrow> int option \<Rightarrow> string option \<Rightarrow> bool" where
  "matches_contact important_ids important_usernames chat_id uname =
     (if (case chat_id of None \<Rightarrow> False | Some i \<Rightarrow> i \<in> important_ids) then True
      else if (case uname of None \<Rightarrow> False
               | Some u \<Rightarrow> u \<noteq> [] \<and> lower u \<in> important_usernames) then True
      else False)"

section \<open>Watermark store\<close>

type_synonym state = "string \<rightharpoonup> int"

datatype file_content = Missing | Unreadable | Stored state

definition load_state :: "file_content \<Rightarrow> state" where
  "load_state f = (case f of Stored m \<Rightarrow> m | _ \<Rightarrow> Map.empty)"

datatype write_outcome = Written | OpenFails | DumpFails

definition save_state :: "write_outcome \<Rightarrow> state \<Rightarrow> file_content \<Rightarrow> file_content" where
  "save_state w st f = (case w of Written \<Rightarrow> Stored st | OpenFails \<Rightarrow> f | DumpFails \<Rightarrow> Unreadable)"

definition state_get :: "state \<Rightarrow> string \<Rightarrow> int" where
  "state_get st k = (case st k of None \<Rightarrow> 0 | Some v \<Rightarrow> v)"

definition get_state_key :: "entity \<Rightarrow> string" where
  "get_state_key e = class_name e @ '':'' @ str_int_option (entity_id e)"

section \<open>Message normalizer\<close>

definition extract_message_text :: "message \<Rightarrow> string" where
  "extract_message_text m =
     (let text = strip (case raw_text m of None \<Rightarrow> [] | Some t \<Rightarrow> t) in
      if text \<noteq> [] then text
      else if truthy_str (msg_message m) \<and> strip (the (msg_message m)) \<noteq> []
        then strip (the (msg_message m))
      else if media m then ''[Media message]''
      else ''[No text content]'')"

section \<open>Important contacts\<close>

text \<open>
  The body of the backend's answer to the contact-list request, as \<open>response.json()\<close>
  returns it (numbers with a fraction are left out of the model).
\<close>

datatype json = JNull | JBool bool | JInt int | JStr string | JArr "json list"
  | JObj "(string \<times> json) list"

datatype http_response = RequestRaises | Body json

fun truthy :: "json \<Rightarrow> bool" where
  "truthy JNull = False"
| "truthy (JBool b) = b"
| "truthy (JInt i) = (i \<noteq> 0)"
| "truthy (JStr s) = (s \<noteq> [])"
| "truthy (JArr xs) = (xs \<noteq> [])"
| "truthy (JObj kvs) = (kvs \<noteq> [])"

definition py_or :: "json \<Rightarrow> json \<Rightarrow> json" where
  "py_or a b = (if truthy a then a else b)"

definition dict_get :: "(string \<times> json) list \<Rightarrow> string \<Rightarrow> json \<Rightarrow> json" where
  "dict_get kvs k dflt = (case map_of kvs k of None \<Rightarrow> dflt | Some v \<Rightarrow> v)"

text \<open>\<open>int(s)\<close> for a string: surrounding whitespace, a sign, digits with single underscores.\<close>

definition is_digit :: "char \<Rightarrow> bool" where
  "is_digit c = (let n = (of_char c :: nat) in 48 \<le> n \<and> n \<le> 57)"

fun digits_ok :: "string \<Rightarrow> bool" where
  "digits_ok [] = False"
| "digits_ok [c] = is_digit c"
| "digits_ok (c # d # cs) =
     (is_digit c \<and> (if d = CHR ''_'' then digits_ok cs else digits_ok (d # cs)))"

definition digits_value :: "string \<Rightarrow> int" where
  "digits_value s =
     fold (\<lambda>c n. if c = CHR ''_'' then n else 10 * n + (int (of_char c) - 48)) s 0"

definition int_of_str :: "string \<Rightarrow> int option" where
  "int_of_str s =
     (case strip s of
        [] \<Rightarrow> None
      | c # cs \<Rightarrow>
          if c = CHR ''-'' then (if digits_ok cs then Some (- digits_value cs) else None)
          else if c = CHR ''+'' then (if digits_ok cs then Some (digits_value cs) else None)
          else if digits_ok (c # cs) then Some (digits_value (c # cs)) else None)"

text \<open>\<open>int(v)\<close>: \<open>None\<close> stands for the TypeError or ValueError the inner handler catches.\<close>

fun py_int :: "json \<Rightarrow> int option" where
  "py_int (JInt i) = Some i"
| "py_int (JBool b) = Some (if b then 1 else 0)"
| "py_int (JStr s) = int_of_str s"
| "py_int JNull = None"
| "py_int (JArr xs) = None"
| "py_int (JObj kvs) = None"

text \<open>What \<open>for entry in contacts\<close> iterates over; \<open>None\<close> when the value is not iterable.\<close>

fun iter_json :: "json \<Rightarrow> json list option" where
  "iter_json (JArr xs) = Some xs"
| "iter_json (JObj kvs) = Some (map (\<lambda>kv. JStr (fst kv)) kvs)"
| "iter_json (JStr s) = Some (map (\<lambda>c. JStr [c]) s)"
| "iter_json JNull = None"
| "iter_json (JBool b) = None"
| "iter_json (JInt i) = None"

text \<open>
  The loop over the entries. An entry that is not an object, or a truthy username that is
  not a string, raises inside the outer \<open>try\<close>: the loop ends there and the sets keep what
  was added before. The first component of the result tells whether that happened.
\<close>

fun add_contacts ::
  "json list \<Rightarrow> int set \<times> string set \<Rightarrow> bool \<times> int set \<times> string set" where
  "add_contacts [] acc = (False, acc)"
| "add_contacts (entry # rest) (important_ids, important_usernames) =
     (case entry of
        JObj kvs \<Rightarrow>
          (let chat_id = py_or (dict_get kvs ''telegramChatId'' JNull)
                               (dict_get kvs ''telegram_chat_id'' JNull);
               uname = py_or (dict_get kvs ''telegramUsername'' JNull)
                             (dict_get kvs ''telegram_username'' JNull);
               ids' = (if truthy chat_id
                       then (case py_int chat_id of
                               Some i \<Rightarrow> insert i important_ids
                             | None \<Rightarrow> important_ids)
                       else important_ids)
           in if truthy uname
              then (case uname of
                      JStr u \<Rightarrow> add_contacts rest (ids', insert (lower u) important_usernames)
                    | _ \<Rightarrow> (True, ids', important_usernames))
              else add_contacts rest (ids', important_usernames))
      | _ \<Rightarrow> (True, important_ids, important_usernames))"

text \<open>
  The result is the pair of sets the source returns, preceded by a flag that is true when
  the \<open>except\<close> branch ran (the warning \<open>Failed to fetch important contacts\<close> was logged).
\<close>

definition fetch_important_contacts ::
  "config \<Rightarrow> http_response \<Rightarrow> bool \<times> int set \<times> string set" where
  "fetch_important_contacts cfg resp =
     (if \<not> truthy_str (BACKEND_CONTACT_LIST_URL cfg) then (False, {}, {})
      else case resp of
        RequestRaises \<Rightarrow> (True, {}, {})
      | Body data \<Rightarrow>
          (case data of
             JObj kvs \<Rightarrow>
               (case iter_json (dict_get kvs ''contacts'' (JArr [])) of
                  None \<Rightarrow> (True, {}, {})
                | Some contacts \<Rightarrow> add_contacts contacts ({}, {}))
           | _ \<Rightarrow> (True, {}, {})))"

section \<open>Cron sweep\<close>

definition cron_payload :: "dialog \<Rightarrow> message \<Rightarrow> payload" where
  "cron_payload d m =
     (let e = dlg_entity d in
      \<lparr> p_chat_id = entity_id e,
        p_chat_title = or_str (dlg_name d) (title e),
        p_chat_username = username e,
        p_sender_id = sender_id m,
        p_sender_username = username e,
        p_sender_name = or_str (dlg_name d) (or_str (first_name e) (title e)),
        p_message = extract_message_text m,
        p_message_id = msg_id m,
        p_date = msg_date m,
        p_unread_count = Some (unread_count d),
        p_cron_mode = True,
        p_has_media = None,
        p_history = False,
        p_account_key = None,
        p_account_id = None \<rparr>)"

text \<open>
  The loop over \<open>reversed(messages)\<close> of one chat. The state is \<open>last_forwarded\<close>,
  \<open>notifications_sent\<close> and the attempts made so far in the run.
\<close>

fun forward_unread ::
  "config \<Rightarrow> backend \<Rightarrow> dialog \<Rightarrow> string \<Rightarrow> message list \<Rightarrow> int \<times> int \<times> attempt list
     \<Rightarrow> int \<times> int \<times> attempt list" where
  "forward_unread cfg net d state_key [] s = s"
| "forward_unread cfg net d state_key (m # ms) (last_forwarded, notifications_sent, log) =
     (if msg_id m \<le> last_forwarded
      then forward_unread cfg net d state_key ms (last_forwarded, notifications_sent, log)
      else
        (let (body, ok) = send_to_backend cfg net (length log) (cron_payload d m) in
         if ok
         then forward_unread cfg net d state_key ms
                (max last_forwarded (msg_id m), notifications_sent + 1,
                 log @ [\<lparr>att_key = state_key, att_body = body, att_ok = True\<rparr>])
         else forward_unread cfg net d state_key ms
                (last_forwarded, notifications_sent,
                 log @ [\<lparr>att_key = state_key, att_body = body, att_ok = False\<rparr>])))"

text \<open>One iteration of the loop over the dialogs.\<close>

definition sweep_dialog ::
  "config \<Rightarrow> backend \<Rightarrow> client \<Rightarrow> int set \<times> string set \<Rightarrow> dialog
     \<Rightarrow> state \<times> int \<times> attempt list \<Rightarrow> state \<times> int \<times> attempt list" where
  "sweep_dialog cfg net cl important d s =
     (case s of (st, notifications_sent, log) \<Rightarrow>
      if unread_count d \<le> 0 then s
      else
        (let e = dlg_entity d; chat_id = entity_id e; uname = username e in
         if is_ignored cfg chat_id then s
         else if \<not> matches_contact (fst important) (snd important) chat_id uname then s
         else if \<not> should_forward cfg (Some e) then s
         else
           (let state_key = get_state_key e;
                last_forwarded = state_get st state_key;
                message_limit = max (unread_count d) 1;
                messages = get_messages cl e message_limit;
                (last', sent', log') =
                   forward_unread cfg net d state_key (rev messages)
                     (last_forwarded, notifications_sent, log)
            in ((if last' > state_get st state_key then st(state_key \<mapsto> last') else st),
                sent', log'))))"

fun sweep_dialogs ::
  "config \<Rightarrow> backend \<Rightarrow> client \<Rightarrow> int set \<times> string set \<Rightarrow> dialog list
     \<Rightarrow> state \<times> int \<times> attempt list \<Rightarrow> state \<times> int \<times> attempt list" where
  "sweep_dialogs cfg net cl important [] s = s"
| "sweep_dialogs cfg net cl important (d # ds) s =
     sweep_dialogs cfg net cl important ds (sweep_dialog cfg net cl important d s)"

text \<open>
  What a pass leaves behind: the value returned, the state file, and the attempts made.
\<close>

record pass_result =
  returned :: int
  file_after :: file_content
  attempts :: "attempt list"

definition process_unread_important_messages ::
  "config \<Rightarrow> http_response \<Rightarrow> backend \<Rightarrow> write_outcome \<Rightarrow> client \<Rightarrow> file_content
     \<Rightarrow> pass_result" where
  "process_unread_important_messages cfg resp net w cl file =
     (let important = snd (fetch_important_contacts cfg resp) in
      if fst important = {} \<and> snd important = {}
      then \<lparr> returned = 0, file_after = file, attempts = [] \<rparr>
      else
        (let (st, notifications_sent, log) =
               sweep_dialogs cfg net cl important (iter_dialogs cl) (load_state file, 0, [])
         in \<lparr> returned = notifications_sent,
              file_after = (if notifications_sent > 0 then save_state w st file else file),
              attempts = log \<rparr>))"

section \<open>History backfill\<close>

text \<open>
  The walk over \<open>iter_messages\<close>: \<open>None\<close> items are skipped, and the walk ends at the
  first message at or below the watermark or dated before the cutoff. The result is
  \<open>messages_to_forward\<close>, newest first.
\<close>

fun collect_messages :: "int option \<Rightarrow> int \<Rightarrow> message option list \<Rightarrow> message list" where
  "collect_messages cutoff last_forwarded [] = []"
| "collect_messages cutoff last_forwarded (None # rest) =
     collect_messages cutoff last_forwarded rest"
| "collect_messages cutoff last_forwarded (Some m # rest) =
     (if msg_id m \<le> last_forwarded then []
      else if (case cutoff of None \<Rightarrow> False
               | Some c \<Rightarrow> (case msg_date m of None \<Rightarrow> False | Some t \<Rightarrow> t < c)) then []
      else m # collect_messages cutoff last_forwarded rest)"

definition resolved_sender :: "message \<Rightarrow> entity option" where
  "resolved_sender m = (case get_sender m of SenderRaises \<Rightarrow> None | Sender s \<Rightarrow> s)"

definition history_payload :: "dialog \<Rightarrow> message \<Rightarrow> payload" where
  "history_payload d m =
     (let e = dlg_entity d; sender = resolved_sender m in
      \<lparr> p_chat_id = entity_id e,
        p_chat_title = or_str (dlg_name d) (title e),
        p_chat_username = username e,
        p_sender_id = (case sender of Some s \<Rightarrow> entity_id s | None \<Rightarrow> sender_id m),
        p_sender_username = (case sender of Some s \<Rightarrow> username s | None \<Rightarrow> None),
        p_sender_name =
          (case sender of
             Some s \<Rightarrow> or_str (first_name s) (or_str (title s) (dlg_name d))
           | None \<Rightarrow> dlg_name d),
        p_message = extract_message_text m,
        p_message_id = msg_id m,
        p_date = msg_date m,
        p_unread_count = None,
        p_cron_mode = False,
        p_has_media = Some (media m),
        p_history = True,
        p_account_key = None,
        p_account_id = None \<rparr>)"

text \<open>The loop over \<open>reversed(messages_to_forward)\<close>; it does not look at the watermark again.\<close>

fun forward_history ::
  "config \<Rightarrow> backend \<Rightarrow> dialog \<Rightarrow> string \<Rightarrow> message list \<Rightarrow> int \<times> int \<times> attempt list
     \<Rightarrow> int \<times> int \<times> attempt list" where
  "forward_history cfg net d state_key [] s = s"
| "forward_history cfg net d state_key (m # ms) (last_forwarded, total_forwarded, log) =
     (let (body, ok) = send_to_backend cfg net (length log) (history_payload d m) in
      if ok
      then forward_history cfg net d state_key ms
             (max last_forwarded (msg_id m), total_forwarded + 1,
              log @ [\<lparr>att_key = state_key, att_body = body, att_ok = True\<rparr>])
      else forward_history cfg net d state_key ms
             (last_forwarded, total_forwarded,
              log @ [\<lparr>att_key = state_key, att_body = body, att_ok = False\<rparr>]))"

definition backfill_limit :: "config \<Rightarrow> int option" where
  "backfill_limit cfg =
     (if BACKFILL_MESSAGE_LIMIT cfg > 0 then Some (BACKFILL_MESSAGE_LIMIT cfg) else None)"

text \<open>\<open>now\<close> is the clock reading, in seconds, when the pass starts.\<close>

definition backfill_cutoff :: "config \<Rightarrow> int \<Rightarrow> int option" where
  "backfill_cutoff cfg now =
     (if BACKFILL_DAYS cfg > 0 then Some (now - BACKFILL_DAYS cfg * 86400) else None)"

text \<open>
  One iteration of the loop over the dialogs. The state is the watermark map,
  \<open>total_forwarded\<close>, \<open>updated_keys\<close> and the attempts so far (\<open>chats_considered\<close> is
  only logged).
\<close>

definition backfill_dialog ::
  "config \<Rightarrow> backend \<Rightarrow> client \<Rightarrow> int set \<times> string set \<Rightarrow> int option \<Rightarrow> dialog
     \<Rightarrow> state \<times> int \<times> int \<times> attempt list \<Rightarrow> state \<times> int \<times> int \<times> attempt list" where
  "backfill_dialog cfg net cl important cutoff d s =
     (case s of (st, total_forwarded, updated_keys, log) \<Rightarrow>
      (let e = dlg_entity d; chat_id = entity_id e; uname = username e in
       if is_ignored cfg chat_id then s
       else if \<not> matches_contact (fst important) (snd important) chat_id uname then s
       else
         (let state_key = get_state_key e;
              last_forwarded = state_get st state_key;
              messages_to_forward =
                collect_messages cutoff last_forwarded (iter_messages cl e (backfill_limit cfg))
          in if messages_to_forward = [] then s
             else
               (let (last', total', log') =
                      forward_history cfg net d state_key (rev messages_to_forward)
                        (last_forwarded, total_forwarded, log)
                in if last' > state_get st state_key
                   then (st(state_key \<mapsto> last'), total', updated_keys + 1, log')
                   else (st, total', updated_keys, log')))))"

fun backfill_dialogs ::
  "config \<Rightarrow> backend \<Rightarrow> client \<Rightarrow> int set \<times> string set \<Rightarrow> int option \<Rightarrow> dialog list
     \<Rightarrow> state \<times> int \<times> int \<times> attempt list \<Rightarrow> state \<times> int \<times> int \<times> attempt list" where
  "backfill_dialogs cfg net cl important cutoff [] s = s"
| "backfill_dialogs cfg net cl important cutoff (d # ds) s =
     backfill_dialogs cfg net cl important cutoff ds
       (backfill_dialog cfg net cl important cutoff d s)"

definition backfill_history ::
  "config \<Rightarrow> http_response \<Rightarrow> backend \<Rightarrow> write_outcome \<Rightarrow> int \<Rightarrow> client \<Rightarrow> file_content
     \<Rightarrow> pass_result" where
  "backfill_history cfg resp net w now cl file =
     (let important = snd (fetch_important_contacts cfg resp) in
      if fst important = {} \<and> snd important = {}
      then \<lparr> returned = 0, file_after = file, attempts = [] \<rparr>
      else
        (let (st, total_forwarded, updated_keys, log) =
               backfill_dialogs cfg net cl important (backfill_cutoff cfg now)
                 (iter_dialogs cl) (load_state file, 0, 0, [])
         in \<lparr> returned = total_forwarded,
              file_after = (if updated_keys > 0 then save_state w st file else file),
              attempts = log \<rparr>))"

section \<open>Live handler\<close>






section \<open>Concrete runs\<close>

text \<open>The inputs the scenarios below are evaluated on.\<close>

definition cfg_all :: config where
  "cfg_all = \<lparr> WATCH_CHATS = ''all'', watch_chat_ids = {}, watch_usernames = {},
     IGNORE_CHAT_IDS = {}, BACKFILL_MESSAGE_LIMIT = 500, BACKFILL_DAYS = 0,
     BACKEND_CONTACT_LIST_URL = Some ''http://backend/api/contacts'',
     BACKEND_ACCOUNT_KEY = None, ACCOUNT_ID_NUM = None \<rparr>"

definition user_555 :: entity where
  "user_555 = \<lparr> class_name = ''User'', entity_id = Some 555, username = None, title = None,
     first_name = Some ''Ann'', is_self = False \<rparr>"

definition text_message :: "int \<Rightarrow> int \<Rightarrow> message" where
  "text_message i t = \<lparr> msg_id = i, raw_text = Some ''hi'', msg_message = Some ''hi'',
     media = False, msg_date = Some t, sender_id = Some 555, get_sender = Sender None \<rparr>"


definition contacts_555 :: http_response where
  "contacts_555 = Body (JObj [(''contacts'', JArr [JObj [(''telegramChatId'', JInt 555)]])])"

definition dialog_555 :: "int \<Rightarrow> dialog" where
  "dialog_555 n = \<lparr> dlg_entity = user_555, unread_count = n, dlg_name = Some ''Ann'' \<rparr>"

text \<open>A client with the single chat 555 whose history, newest first, is \<open>ms\<close>.\<close>

definition client_555 :: "int \<Rightarrow> message list \<Rightarrow> client" where
  "client_555 n ms = \<lparr> iter_dialogs = [dialog_555 n],
     get_messages = (\<lambda>e limit. take (nat limit) ms),
     iter_messages = (\<lambda>e limit.
        map Some (case limit of None \<Rightarrow> ms | Some l \<Rightarrow> take (nat l) ms)) \<rparr>"

text \<open>A backend that rejects exactly the message with id \<open>i\<close>, and one that accepts all.\<close>

definition fails_on :: "int \<Rightarrow> backend" where
  "fails_on i = (\<lambda>n p. p_message_id p \<noteq> i)"

definition accepts_all :: backend where
  "accepts_all = (\<lambda>n p. True)"

definition attempted_ids :: "attempt list \<Rightarrow> int list" where
  "attempted_ids log = map (\<lambda>a. p_message_id (att_body a)) log"

text \<open>The partial-failure run: watermark absent, three unread messages, 2 is rejected.\<close>

definition three_messages :: "message list" where
  "three_messages = [text_message 3 0, text_message 2 0, text_message 1 0]"

definition cron_partial_failure :: pass_result where
  "cron_partial_failure =
     process_unread_important_messages cfg_all contacts_555 (fails_on 2) Written
       (client_555 3 three_messages) Missing"

definition backfill_partial_failure :: pass_result where
  "backfill_partial_failure =
     backfill_history cfg_all contacts_555 (fails_on 2) Written 0
       (client_555 3 three_messages) Missing"

text \<open>A watermark file that already holds 101 for chat 555, and the two newest messages.\<close>

definition file_101 :: file_content where
  "file_101 = Stored [''User:555'' \<mapsto> 101]"

definition cron_at_watermark :: pass_result where
  "cron_at_watermark =
     process_unread_important_messages cfg_all contacts_555 accepts_all Written
       (client_555 2 [text_message 102 0, text_message 101 0]) file_101"

definition backfill_at_watermark :: pass_result where
  "backfill_at_watermark =
     backfill_history cfg_all contacts_555 accepts_all Written 0
       (client_555 2 [text_message 102 0, text_message 101 0]) file_101"


















text \<open>A watch scope that names chat 123 only.\<close>

definition cfg_scoped :: config where
  "cfg_scoped = cfg_all \<lparr> WATCH_CHATS := ''123'', watch_chat_ids := {123} \<rparr>"

definition backfill_out_of_scope :: pass_result where
  "backfill_out_of_scope =
     backfill_history cfg_scoped contacts_555 accepts_all Written 0
       (client_555 3 three_messages) Missing"

definition cron_out_of_scope :: pass_result where
  "cron_out_of_scope =
     process_unread_important_messages cfg_scoped contacts_555 accepts_all Written
       (client_555 3 three_messages) Missing"

text \<open>
  A contact list whose second entry has a number where the username should be; reading
  it raises after chat 555 has been recorded.
\<close>

definition contacts_malformed :: http_response where
  "contacts_malformed =
     Body (JObj [(''contacts'',
       JArr [JObj [(''telegramChatId'', JInt 555)], JObj [(''telegramUsername'', JInt 123)]])])"

definition cron_malformed_contacts :: pass_result where
  "cron_malformed_contacts =
     process_unread_important_messages cfg_all contacts_malformed accepts_all Written
       (client_555 3 three_messages) Missing"

definition backfill_malformed_contacts :: pass_result where
  "backfill_malformed_contacts =
     backfill_history cfg_all contacts_malformed accepts_all Written 0
       (client_555 3 three_messages) Missing"

section \<open>Vocabulary of the properties\<close>

definition att_id :: "attempt \<Rightarrow> int" where
  "att_id a = p_message_id (att_body a)"

definition chat_key :: "dialog \<Rightarrow> string" where
  "chat_key d = get_state_key (dlg_entity d)"

text \<open>The filters a dialog passes before the cron sweep reconciles it.\<close>

definition sweep_selects :: "config \<Rightarrow> int set \<times> string set \<Rightarrow> dialog \<Rightarrow> bool" where
  "sweep_selects cfg important d =
     (0 < unread_count d
      \<and> \<not> is_ignored cfg (entity_id (dlg_entity d))
      \<and> matches_contact (fst important) (snd important)
            (entity_id (dlg_entity d)) (username (dlg_entity d))
      \<and> should_forward cfg (Some (dlg_entity d)))"

text \<open>The filters a dialog passes before the backfill reconciles it.\<close>

definition backfill_selects :: "config \<Rightarrow> int set \<times> string set \<Rightarrow> dialog \<Rightarrow> bool" where
  "backfill_selects cfg important d =
     (\<not> is_ignored cfg (entity_id (dlg_entity d))
      \<and> matches_contact (fst important) (snd important)
            (entity_id (dlg_entity d)) (username (dlg_entity d)))"

text \<open>The messages the cron sweep fetches for a dialog, newest first.\<close>

definition unread_batch :: "client \<Rightarrow> dialog \<Rightarrow> message list" where
  "unread_batch cl d = get_messages cl (dlg_entity d) (max (unread_count d) 1)"

text \<open>The messages the backfill walks for a dialog, newest first, \<open>None\<close> items dropped.\<close>

definition history_stream :: "config \<Rightarrow> client \<Rightarrow> dialog \<Rightarrow> message list" where
  "history_stream cfg cl d =
     concat (map (\<lambda>x. case x of None \<Rightarrow> [] | Some m \<Rightarrow> [m])
       (iter_messages cl (dlg_entity d) (backfill_limit cfg)))"

text \<open>The condition under which the backfill walk goes past a message.\<close>

definition walk_passes :: "int option \<Rightarrow> int \<Rightarrow> message \<Rightarrow> bool" where
  "walk_passes cutoff last_forwarded m =
     (last_forwarded < msg_id m
      \<and> \<not> (case cutoff of None \<Rightarrow> False
             | Some c \<Rightarrow> (case msg_date m of None \<Rightarrow> False | Some t \<Rightarrow> t < c)))"

text \<open>What one attempt does to the in-memory watermark.\<close>

definition advance :: "attempt \<Rightarrow> int \<Rightarrow> int" where
  "advance a lf = (if att_ok a then max lf (att_id a) else lf)"

text \<open>An attempt as the pair of its message id and its outcome.\<close>

definition outcomes :: "attempt list \<Rightarrow> (int \<times> bool) list" where
  "outcomes log = map (\<lambda>a. (att_id a, att_ok a)) log"

section \<open>Invariants of the cron sweep\<close>


lemma with_account_id [simp]: "p_message_id (with_account cfg p) = p_message_id p"
  by (simp add: with_account_def Let_def)

lemma with_account_message [simp]: "p_message (with_account cfg p) = p_message p"
  by (simp add: with_account_def Let_def)

lemma forward_unread_inv:
  "forward_unread cfg net d k ms (lf, sent, lg) = (lf', sent', lg') \<Longrightarrow>
   \<exists>new. lg' = lg @ new \<and> lf \<le> lf' \<and> sent \<le> sent'
     \<and> (\<forall>a\<in>set new. att_key a = k \<and> lf < att_id a
            \<and> (\<exists>m\<in>set ms. att_body a = with_account cfg (cron_payload d m)))
     \<and> (\<forall>a\<in>set new. att_ok a \<longrightarrow> att_id a \<le> lf')
     \<and> (lf' = lf \<or> (\<exists>a\<in>set new. att_ok a \<and> att_id a = lf'))
     \<and> (sent' = sent \<longrightarrow> lf' = lf)"
proof (induction ms arbitrary: lf sent lg)
  case Nil
  then show ?case by simp
next
  case (Cons m ms)
  show ?case
  proof (cases "msg_id m \<le> lf")
    case True
    with Cons.prems have "forward_unread cfg net d k ms (lf, sent, lg) = (lf', sent', lg')"
      by simp
    from Cons.IH[OF this] show ?thesis by auto
  next
    case False
    let ?body = "with_account cfg (cron_payload d m)"
    have mid: "att_id \<lparr>att_key = k, att_body = ?body, att_ok = b\<rparr> = msg_id m" for b
      by (simp add: att_id_def cron_payload_def Let_def)
    show ?thesis
    proof (cases "net (length lg) ?body")
      case True
      with False Cons.prems have
        "forward_unread cfg net d k ms (max lf (msg_id m), sent + 1,
           lg @ [\<lparr>att_key = k, att_body = ?body, att_ok = True\<rparr>]) = (lf', sent', lg')"
        by (simp add: send_to_backend_def Let_def)
      from Cons.IH[OF this] obtain new where new:
        "lg' = (lg @ [\<lparr>att_key = k, att_body = ?body, att_ok = True\<rparr>]) @ new"
        "max lf (msg_id m) \<le> lf'" "sent + 1 \<le> sent'"
        "\<forall>a\<in>set new. att_key a = k \<and> max lf (msg_id m) < att_id a
            \<and> (\<exists>m\<in>set ms. att_body a = with_account cfg (cron_payload d m))"
        "\<forall>a\<in>set new. att_ok a \<longrightarrow> att_id a \<le> lf'"
        "lf' = max lf (msg_id m) \<or> (\<exists>a\<in>set new. att_ok a \<and> att_id a = lf')"
        by blast
      show ?thesis
        apply (rule exI[of _ "\<lparr>att_key = k, att_body = ?body, att_ok = True\<rparr> # new"])
        using new False mid by (auto simp: max_def split: if_splits)
    next
      case F2: False
      with False Cons.prems have
        "forward_unread cfg net d k ms (lf, sent,
           lg @ [\<lparr>att_key = k, att_body = ?body, att_ok = False\<rparr>]) = (lf', sent', lg')"
        by (simp add: send_to_backend_def Let_def)
      from Cons.IH[OF this] obtain new where new:
        "lg' = (lg @ [\<lparr>att_key = k, att_body = ?body, att_ok = False\<rparr>]) @ new"
        "lf \<le> lf'" "sent \<le> sent'"
        "\<forall>a\<in>set new. att_key a = k \<and> lf < att_id a
            \<and> (\<exists>m\<in>set ms. att_body a = with_account cfg (cron_payload d m))"
        "\<forall>a\<in>set new. att_ok a \<longrightarrow> att_id a \<le> lf'"
        "lf' = lf \<or> (\<exists>a\<in>set new. att_ok a \<and> att_id a = lf')"
        "sent' = sent \<longrightarrow> lf' = lf"
        by blast
      show ?thesis
        apply (rule exI[of _ "\<lparr>att_key = k, att_body = ?body, att_ok = False\<rparr> # new"])
        using new False mid by auto
    qed
  qed
qed


lemma state_get_upd: "state_get (st(k \<mapsto> v)) k' = (if k' = k then v else state_get st k')"
  by (simp add: state_get_def)

lemma sweep_dialog_skip:
  "\<not> sweep_selects cfg important d \<Longrightarrow> sweep_dialog cfg net cl important d s = s"
  by (cases s) (auto simp: sweep_dialog_def sweep_selects_def Let_def)

lemma sweep_dialog_step:
  assumes "sweep_dialog cfg net cl important d (st, sent, lg) = (st', sent', lg')"
  shows "\<exists>new. lg' = lg @ new \<and> sent \<le> sent' \<and> (sent' = sent \<longrightarrow> st' = st)
     \<and> (\<forall>a\<in>set new. att_key a = chat_key d \<and> sweep_selects cfg important d
            \<and> state_get st (chat_key d) < att_id a
            \<and> (\<exists>m\<in>set (unread_batch cl d). att_body a = with_account cfg (cron_payload d m)))
     \<and> (\<forall>k. k \<noteq> chat_key d \<longrightarrow> st' k = st k)
     \<and> (\<forall>k. state_get st k \<le> state_get st' k)
     \<and> (\<forall>k. st' k \<noteq> st k \<longrightarrow> (\<exists>a\<in>set new. att_key a = k \<and> att_ok a \<and> st' k = Some (att_id a)))
     \<and> (\<forall>a\<in>set new. att_ok a \<longrightarrow> att_id a \<le> state_get st' (att_key a))"
proof (cases "sweep_selects cfg important d")
  case False
  with assms have "st' = st" "sent' = sent" "lg' = lg"
    by (simp_all add: sweep_dialog_skip)
  then show ?thesis by simp
next
  case True
  obtain lf' s' l' where fu:
    "forward_unread cfg net d (chat_key d) (rev (unread_batch cl d))
        (state_get st (chat_key d), sent, lg) = (lf', s', l')"
    by (metis prod_cases3)
  from True assms fu have res:
    "st' = (if lf' > state_get st (chat_key d) then st(chat_key d \<mapsto> lf') else st)"
    "sent' = s'" "lg' = l'"
    by (auto simp: sweep_dialog_def sweep_selects_def Let_def chat_key_def unread_batch_def)
  from forward_unread_inv[OF fu] obtain new where new:
    "l' = lg @ new" "state_get st (chat_key d) \<le> lf'" "sent \<le> s'"
    "\<forall>a\<in>set new. att_key a = chat_key d \<and> state_get st (chat_key d) < att_id a
        \<and> (\<exists>m\<in>set (rev (unread_batch cl d)). att_body a = with_account cfg (cron_payload d m))"
    "\<forall>a\<in>set new. att_ok a \<longrightarrow> att_id a \<le> lf'"
    "lf' = state_get st (chat_key d) \<or> (\<exists>a\<in>set new. att_ok a \<and> att_id a = lf')"
    "s' = sent \<longrightarrow> lf' = state_get st (chat_key d)"
    by blast
  show ?thesis
    apply (rule exI[of _ new])
    using new res True by (auto simp: state_get_upd)
qed


lemma sweep_dialogs_inv:
  assumes "sweep_dialogs cfg net cl important ds (st, sent, lg) = (st', sent', lg')"
  shows "\<exists>new. lg' = lg @ new \<and> sent \<le> sent' \<and> (sent' = sent \<longrightarrow> st' = st)
     \<and> (\<forall>a\<in>set new. state_get st (att_key a) < att_id a
            \<and> (\<exists>d\<in>set ds. att_key a = chat_key d \<and> sweep_selects cfg important d
                 \<and> (\<exists>m\<in>set (unread_batch cl d).
                       att_body a = with_account cfg (cron_payload d m))))
     \<and> (\<forall>k. state_get st k \<le> state_get st' k)
     \<and> (\<forall>k. st' k \<noteq> st k \<longrightarrow> (\<exists>a\<in>set new. att_key a = k \<and> att_ok a \<and> st' k = Some (att_id a)))
     \<and> (\<forall>a\<in>set new. att_ok a \<longrightarrow> att_id a \<le> state_get st' (att_key a))
     \<and> (\<forall>k. k \<notin> chat_key ` set ds \<longrightarrow> st' k = st k)"
  using assms
proof (induction ds arbitrary: st sent lg)
  case Nil
  then show ?case by simp
next
  case (Cons d ds)
  obtain st1 sent1 lg1 where step:
    "sweep_dialog cfg net cl important d (st, sent, lg) = (st1, sent1, lg1)"
    by (metis prod_cases3)
  with Cons.prems have rest:
    "sweep_dialogs cfg net cl important ds (st1, sent1, lg1) = (st', sent', lg')"
    by simp
  from sweep_dialog_step[OF step] obtain n1 where n1:
    "lg1 = lg @ n1" "sent \<le> sent1" "sent1 = sent \<longrightarrow> st1 = st"
    "\<forall>a\<in>set n1. att_key a = chat_key d \<and> sweep_selects cfg important d
            \<and> state_get st (chat_key d) < att_id a
            \<and> (\<exists>m\<in>set (unread_batch cl d). att_body a = with_account cfg (cron_payload d m))"
    "\<forall>k. k \<noteq> chat_key d \<longrightarrow> st1 k = st k"
    "\<forall>k. state_get st k \<le> state_get st1 k"
    "\<forall>k. st1 k \<noteq> st k \<longrightarrow> (\<exists>a\<in>set n1. att_key a = k \<and> att_ok a \<and> st1 k = Some (att_id a))"
    "\<forall>a\<in>set n1. att_ok a \<longrightarrow> att_id a \<le> state_get st1 (att_key a)"
    by blast
  from Cons.IH[OF rest] obtain n2 where n2:
    "lg' = lg1 @ n2" "sent1 \<le> sent'" "sent' = sent1 \<longrightarrow> st' = st1"
    "\<forall>a\<in>set n2. state_get st1 (att_key a) < att_id a
            \<and> (\<exists>d\<in>set ds. att_key a = chat_key d \<and> sweep_selects cfg important d
                 \<and> (\<exists>m\<in>set (unread_batch cl d).
                       att_body a = with_account cfg (cron_payload d m)))"
    "\<forall>k. state_get st1 k \<le> state_get st' k"
    "\<forall>k. st' k \<noteq> st1 k \<longrightarrow> (\<exists>a\<in>set n2. att_key a = k \<and> att_ok a \<and> st' k = Some (att_id a))"
    "\<forall>a\<in>set n2. att_ok a \<longrightarrow> att_id a \<le> state_get st' (att_key a)"
    "\<forall>k. k \<notin> chat_key ` set ds \<longrightarrow> st' k = st1 k"
    by blast
  have a1: "lg' = lg @ (n1 @ n2)" using n1(1) n2(1) by simp
  have a2: "sent \<le> sent'" using n1(2) n2(2) by simp
  have a3: "sent' = sent \<longrightarrow> st' = st" using n1(2,3) n2(2,3) by auto
  have a4: "\<forall>a\<in>set (n1 @ n2). state_get st (att_key a) < att_id a
            \<and> (\<exists>d'\<in>set (d # ds). att_key a = chat_key d' \<and> sweep_selects cfg important d'
                 \<and> (\<exists>m\<in>set (unread_batch cl d').
                       att_body a = with_account cfg (cron_payload d' m)))"
  proof
    fix a assume "a \<in> set (n1 @ n2)"
    then consider "a \<in> set n1" | "a \<in> set n2" by auto
    then show "state_get st (att_key a) < att_id a
            \<and> (\<exists>d'\<in>set (d # ds). att_key a = chat_key d' \<and> sweep_selects cfg important d'
                 \<and> (\<exists>m\<in>set (unread_batch cl d').
                       att_body a = with_account cfg (cron_payload d' m)))"
    proof cases
      case 1
      with n1(4) show ?thesis by auto
    next
      case 2
      with n2(4) have "state_get st1 (att_key a) < att_id a" by blast
      moreover have "state_get st (att_key a) \<le> state_get st1 (att_key a)" using n1(6) by blast
      ultimately have "state_get st (att_key a) < att_id a" by linarith
      with 2 n2(4) show ?thesis by auto
    qed
  qed
  have a5: "\<forall>k. state_get st k \<le> state_get st' k"
    using n1(6) n2(5) by (meson order_trans)
  have a6: "\<forall>k. st' k \<noteq> st k \<longrightarrow> (\<exists>a\<in>set (n1 @ n2). att_key a = k \<and> att_ok a \<and> st' k = Some (att_id a))"
  proof (intro allI impI)
    fix k assume neq: "st' k \<noteq> st k"
    show "\<exists>a\<in>set (n1 @ n2). att_key a = k \<and> att_ok a \<and> st' k = Some (att_id a)"
    proof (cases "st' k = st1 k")
      case True
      with neq have "st1 k \<noteq> st k" by simp
      with n1(7) obtain a where "a \<in> set n1" "att_key a = k" "att_ok a" "st1 k = Some (att_id a)"
        by blast
      with True show ?thesis by auto
    next
      case False
      with n2(6) obtain a where "a \<in> set n2" "att_key a = k" "att_ok a" "st' k = Some (att_id a)"
        by blast
      then show ?thesis by auto
    qed
  qed
  have a7: "\<forall>a\<in>set (n1 @ n2). att_ok a \<longrightarrow> att_id a \<le> state_get st' (att_key a)"
  proof (intro ballI impI)
    fix a assume "a \<in> set (n1 @ n2)" and ok: "att_ok a"
    then consider "a \<in> set n1" | "a \<in> set n2" by auto
    then show "att_id a \<le> state_get st' (att_key a)"
    proof cases
      case 1
      with n1(8) ok have "att_id a \<le> state_get st1 (att_key a)" by blast
      moreover have "state_get st1 (att_key a) \<le> state_get st' (att_key a)" using n2(5) by blast
      ultimately show ?thesis by linarith
    next
      case 2
      with n2(7) ok show ?thesis by blast
    qed
  qed
  have a8: "\<forall>k. k \<notin> chat_key ` set (d # ds) \<longrightarrow> st' k = st k"
    using n1(5) n2(8) by auto
  show ?case
    apply (rule exI[of _ "n1 @ n2"])
    using a1 a2 a3 a4 a5 a6 a7 a8 by blast
qed

section \<open>Invariants of the backfill\<close>

lemma collect_messages_takeWhile:
  "collect_messages cutoff lf xs =
     takeWhile (walk_passes cutoff lf)
       (concat (map (\<lambda>x. case x of None \<Rightarrow> [] | Some m \<Rightarrow> [m]) xs))"
  by (induction cutoff lf xs rule: collect_messages.induct)
     (auto simp: walk_passes_def split: option.splits)

lemma forward_history_inv:
  "forward_history cfg net d k ms (lf, tot, lg) = (lf', tot', lg') \<Longrightarrow>
   \<exists>new. lg' = lg @ new \<and> lf \<le> lf' \<and> tot \<le> tot'
     \<and> map att_body new = map (\<lambda>m. with_account cfg (history_payload d m)) ms
     \<and> (\<forall>a\<in>set new. att_key a = k)
     \<and> (\<forall>a\<in>set new. att_ok a \<longrightarrow> att_id a \<le> lf')
     \<and> (lf' = lf \<or> (\<exists>a\<in>set new. att_ok a \<and> att_id a = lf'))
     \<and> (tot' = tot \<longrightarrow> lf' = lf)"
proof (induction ms arbitrary: lf tot lg)
  case Nil
  then show ?case by simp
next
  case (Cons m ms)
  let ?body = "with_account cfg (history_payload d m)"
  have mid: "att_id \<lparr>att_key = k, att_body = ?body, att_ok = b\<rparr> = msg_id m" for b
    by (simp add: att_id_def history_payload_def Let_def)
  show ?case
  proof (cases "net (length lg) ?body")
    case True
    with Cons.prems have
      "forward_history cfg net d k ms (max lf (msg_id m), tot + 1,
         lg @ [\<lparr>att_key = k, att_body = ?body, att_ok = True\<rparr>]) = (lf', tot', lg')"
      by (simp add: send_to_backend_def Let_def)
    from Cons.IH[OF this] obtain new where new:
      "lg' = (lg @ [\<lparr>att_key = k, att_body = ?body, att_ok = True\<rparr>]) @ new"
      "max lf (msg_id m) \<le> lf'" "tot + 1 \<le> tot'"
      "map att_body new = map (\<lambda>m. with_account cfg (history_payload d m)) ms"
      "\<forall>a\<in>set new. att_key a = k"
      "\<forall>a\<in>set new. att_ok a \<longrightarrow> att_id a \<le> lf'"
      "lf' = max lf (msg_id m) \<or> (\<exists>a\<in>set new. att_ok a \<and> att_id a = lf')"
      by blast
    show ?thesis
      apply (rule exI[of _ "\<lparr>att_key = k, att_body = ?body, att_ok = True\<rparr> # new"])
      using new mid by (auto simp: max_def split: if_splits)
  next
    case False
    with Cons.prems have
      "forward_history cfg net d k ms (lf, tot,
         lg @ [\<lparr>att_key = k, att_body = ?body, att_ok = False\<rparr>]) = (lf', tot', lg')"
      by (simp add: send_to_backend_def Let_def)
    from Cons.IH[OF this] obtain new where new:
      "lg' = (lg @ [\<lparr>att_key = k, att_body = ?body, att_ok = False\<rparr>]) @ new"
      "lf \<le> lf'" "tot \<le> tot'"
      "map att_body new = map (\<lambda>m. with_account cfg (history_payload d m)) ms"
      "\<forall>a\<in>set new. att_key a = k"
      "\<forall>a\<in>set new. att_ok a \<longrightarrow> att_id a \<le> lf'"
      "lf' = lf \<or> (\<exists>a\<in>set new. att_ok a \<and> att_id a = lf')"
      "tot' = tot \<longrightarrow> lf' = lf"
      by blast
    show ?thesis
      apply (rule exI[of _ "\<lparr>att_key = k, att_body = ?body, att_ok = False\<rparr> # new"])
      using new mid by auto
  qed
qed

lemma backfill_dialog_skip:
  "\<not> backfill_selects cfg important d \<Longrightarrow> backfill_dialog cfg net cl important cutoff d s = s"
  by (cases s) (auto simp: backfill_dialog_def backfill_selects_def Let_def)

text \<open>The messages the backfill collects for a dialog, newest first.\<close>

lemma backfill_dialog_collected:
  "collect_messages cutoff lf (iter_messages cl (dlg_entity d) (backfill_limit cfg)) =
     takeWhile (walk_passes cutoff lf) (history_stream cfg cl d)"
  by (simp add: collect_messages_takeWhile history_stream_def)

lemma backfill_dialog_step:
  assumes "backfill_dialog cfg net cl important cutoff d (st, tot, upd, lg) = (st', tot', upd', lg')"
  shows "\<exists>new. lg' = lg @ new \<and> tot \<le> tot' \<and> upd \<le> upd' \<and> (upd' = upd \<longrightarrow> st' = st)
     \<and> (\<forall>a\<in>set new. att_key a = chat_key d \<and> backfill_selects cfg important d
            \<and> state_get st (chat_key d) < att_id a)
     \<and> (backfill_selects cfg important d \<longrightarrow>
          map att_body new = map (\<lambda>m. with_account cfg (history_payload d m))
            (rev (takeWhile (walk_passes cutoff (state_get st (chat_key d)))
                    (history_stream cfg cl d))))
     \<and> (\<forall>k. k \<noteq> chat_key d \<longrightarrow> st' k = st k)
     \<and> (\<forall>k. state_get st k \<le> state_get st' k)
     \<and> (\<forall>k. st' k \<noteq> st k \<longrightarrow> (\<exists>a\<in>set new. att_key a = k \<and> att_ok a \<and> st' k = Some (att_id a)))
     \<and> (\<forall>a\<in>set new. att_ok a \<longrightarrow> att_id a \<le> state_get st' (att_key a))"
proof (cases "backfill_selects cfg important d")
  case False
  with assms have "st' = st" "tot' = tot" "upd' = upd" "lg' = lg"
    by (simp_all add: backfill_dialog_skip)
  with False show ?thesis by simp
next
  case True
  let ?lf = "state_get st (chat_key d)"
  let ?ms = "takeWhile (walk_passes cutoff ?lf) (history_stream cfg cl d)"
  obtain lf' t' l' where fh:
    "forward_history cfg net d (chat_key d) (rev ?ms) (?lf, tot, lg) = (lf', t', l')"
    by (metis prod_cases3)
  from forward_history_inv[OF fh] obtain new where new:
    "l' = lg @ new" "?lf \<le> lf'" "tot \<le> t'"
    "map att_body new = map (\<lambda>m. with_account cfg (history_payload d m)) (rev ?ms)"
    "\<forall>a\<in>set new. att_key a = chat_key d"
    "\<forall>a\<in>set new. att_ok a \<longrightarrow> att_id a \<le> lf'"
    "lf' = ?lf \<or> (\<exists>a\<in>set new. att_ok a \<and> att_id a = lf')"
    "t' = tot \<longrightarrow> lf' = ?lf"
    by blast
  have empty: "?ms = [] \<Longrightarrow> new = [] \<and> lf' = ?lf \<and> t' = tot \<and> l' = lg"
    using fh new(1) by simp
  from True assms fh have res:
    "st' = (if lf' > ?lf then st(chat_key d \<mapsto> lf') else st)"
    "tot' = t'" "lg' = l'" "upd' = (if lf' > ?lf then upd + 1 else upd)"
    using empty
    by (auto simp: backfill_dialog_def backfill_selects_def Let_def chat_key_def
          backfill_dialog_collected[unfolded chat_key_def] split: if_splits)
  have ids: "\<forall>a\<in>set new. ?lf < att_id a"
  proof
    fix a assume "a \<in> set new"
    then have "att_body a \<in> set (map att_body new)" by simp
    with new(4) obtain m where m: "m \<in> set ?ms" "att_body a = with_account cfg (history_payload d m)"
      by auto
    from m(1) have "walk_passes cutoff ?lf m" by (meson set_takeWhileD)
    with m(2) show "?lf < att_id a"
      by (simp add: walk_passes_def att_id_def history_payload_def Let_def)
  qed
  show ?thesis
    apply (rule exI[of _ new])
    using new res True ids by (auto simp: state_get_upd)
qed

lemma backfill_dialogs_inv:
  assumes "backfill_dialogs cfg net cl important cutoff ds (st, tot, upd, lg) = (st', tot', upd', lg')"
  shows "\<exists>new. lg' = lg @ new \<and> tot \<le> tot' \<and> upd \<le> upd' \<and> (upd' = upd \<longrightarrow> st' = st)
     \<and> (\<forall>a\<in>set new. state_get st (att_key a) < att_id a
            \<and> (\<exists>d\<in>set ds. att_key a = chat_key d \<and> backfill_selects cfg important d))
     \<and> (\<forall>k. state_get st k \<le> state_get st' k)
     \<and> (\<forall>k. st' k \<noteq> st k \<longrightarrow> (\<exists>a\<in>set new. att_key a = k \<and> att_ok a \<and> st' k = Some (att_id a)))
     \<and> (\<forall>a\<in>set new. att_ok a \<longrightarrow> att_id a \<le> state_get st' (att_key a))
     \<and> (\<forall>k. k \<notin> chat_key ` set ds \<longrightarrow> st' k = st k)"
  using assms
proof (induction ds arbitrary: st tot upd lg)
  case Nil
  then show ?case by simp
next
  case (Cons d ds)
  obtain st1 tot1 upd1 lg1 where step:
    "backfill_dialog cfg net cl important cutoff d (st, tot, upd, lg) = (st1, tot1, upd1, lg1)"
    by (metis prod_cases4)
  with Cons.prems have rest:
    "backfill_dialogs cfg net cl important cutoff ds (st1, tot1, upd1, lg1) = (st', tot', upd', lg')"
    by simp
  from backfill_dialog_step[OF step] obtain n1 where n1:
    "lg1 = lg @ n1" "tot \<le> tot1" "upd \<le> upd1" "upd1 = upd \<longrightarrow> st1 = st"
    "\<forall>a\<in>set n1. att_key a = chat_key d \<and> backfill_selects cfg important d
            \<and> state_get st (chat_key d) < att_id a"
    "\<forall>k. k \<noteq> chat_key d \<longrightarrow> st1 k = st k"
    "\<forall>k. state_get st k \<le> state_get st1 k"
    "\<forall>k. st1 k \<noteq> st k \<longrightarrow> (\<exists>a\<in>set n1. att_key a = k \<and> att_ok a \<and> st1 k = Some (att_id a))"
    "\<forall>a\<in>set n1. att_ok a \<longrightarrow> att_id a \<le> state_get st1 (att_key a)"
    by blast
  from Cons.IH[OF rest] obtain n2 where n2:
    "lg' = lg1 @ n2" "tot1 \<le> tot'" "upd1 \<le> upd'" "upd' = upd1 \<longrightarrow> st' = st1"
    "\<forall>a\<in>set n2. state_get st1 (att_key a) < att_id a
            \<and> (\<exists>d\<in>set ds. att_key a = chat_key d \<and> backfill_selects cfg important d)"
    "\<forall>k. state_get st1 k \<le> state_get st' k"
    "\<forall>k. st' k \<noteq> st1 k \<longrightarrow> (\<exists>a\<in>set n2. att_key a = k \<and> att_ok a \<and> st' k = Some (att_id a))"
    "\<forall>a\<in>set n2. att_ok a \<longrightarrow> att_id a \<le> state_get st' (att_key a)"
    "\<forall>k. k \<notin> chat_key ` set ds \<longrightarrow> st' k = st1 k"
    by blast
  have a1: "lg' = lg @ (n1 @ n2)" using n1(1) n2(1) by simp
  have a2: "tot \<le> tot' \<and> upd \<le> upd'" using n1(2,3) n2(2,3) by simp
  have a3: "upd' = upd \<longrightarrow> st' = st" using n1(3,4) n2(3,4) by auto
  have a4: "\<forall>a\<in>set (n1 @ n2). state_get st (att_key a) < att_id a
            \<and> (\<exists>d'\<in>set (d # ds). att_key a = chat_key d' \<and> backfill_selects cfg important d')"
  proof
    fix a assume "a \<in> set (n1 @ n2)"
    then consider "a \<in> set n1" | "a \<in> set n2" by auto
    then show "state_get st (att_key a) < att_id a
            \<and> (\<exists>d'\<in>set (d # ds). att_key a = chat_key d' \<and> backfill_selects cfg important d')"
    proof cases
      case 1
      with n1(5) show ?thesis by auto
    next
      case 2
      with n2(5) have "state_get st1 (att_key a) < att_id a" by blast
      moreover have "state_get st (att_key a) \<le> state_get st1 (att_key a)" using n1(7) by blast
      ultimately have "state_get st (att_key a) < att_id a" by linarith
      with 2 n2(5) show ?thesis by auto
    qed
  qed
  have a5: "\<forall>k. state_get st k \<le> state_get st' k"
    using n1(7) n2(6) by (meson order_trans)
  have a6: "\<forall>k. st' k \<noteq> st k \<longrightarrow> (\<exists>a\<in>set (n1 @ n2). att_key a = k \<and> att_ok a \<and> st' k = Some (att_id a))"
  proof (intro allI impI)
    fix k assume neq: "st' k \<noteq> st k"
    show "\<exists>a\<in>set (n1 @ n2). att_key a = k \<and> att_ok a \<and> st' k = Some (att_id a)"
    proof (cases "st' k = st1 k")
      case True
      with neq have "st1 k \<noteq> st k" by simp
      with n1(8) obtain a where "a \<in> set n1" "att_key a = k" "att_ok a" "st1 k = Some (att_id a)"
        by blast
      with True show ?thesis by auto
    next
      case False
      with n2(7) obtain a where "a \<in> set n2" "att_key a = k" "att_ok a" "st' k = Some (att_id a)"
        by blast
      then show ?thesis by auto
    qed
  qed
  have a7: "\<forall>a\<in>set (n1 @ n2). att_ok a \<longrightarrow> att_id a \<le> state_get st' (att_key a)"
  proof (intro ballI impI)
    fix a assume "a \<in> set (n1 @ n2)" and ok: "att_ok a"
    then consider "a \<in> set n1" | "a \<in> set n2" by auto
    then show "att_id a \<le> state_get st' (att_key a)"
    proof cases
      case 1
      with n1(9) ok have "att_id a \<le> state_get st1 (att_key a)" by blast
      moreover have "state_get st1 (att_key a) \<le> state_get st' (att_key a)" using n2(6) by blast
      ultimately show ?thesis by linarith
    next
      case 2
      with n2(8) ok show ?thesis by blast
    qed
  qed
  have a8: "\<forall>k. k \<notin> chat_key ` set (d # ds) \<longrightarrow> st' k = st k"
    using n1(6) n2(9) by auto
  show ?case
    apply (rule exI[of _ "n1 @ n2"])
    using a1 a2 a3 a4 a5 a6 a7 a8 by blast
qed

section \<open>The two passes\<close>

lemma cron_pass_cases:
  obtains (short) "snd (fetch_important_contacts cfg resp) = ({}, {})"
      "process_unread_important_messages cfg resp net w cl fc =
         \<lparr> returned = 0, file_after = fc, attempts = [] \<rparr>"
  | (run) st' sent' lg' where
      "sweep_dialogs cfg net cl (snd (fetch_important_contacts cfg resp)) (iter_dialogs cl)
         (load_state fc, 0, []) = (st', sent', lg')"
      "process_unread_important_messages cfg resp net w cl fc =
         \<lparr> returned = sent',
           file_after = (if sent' > 0 then save_state w st' fc else fc),
           attempts = lg' \<rparr>"
proof (cases "fst (snd (fetch_important_contacts cfg resp)) = {}
    \<and> snd (snd (fetch_important_contacts cfg resp)) = {}")
  case True
  then have "snd (fetch_important_contacts cfg resp) = ({}, {})" by (simp add: prod_eq_iff)
  moreover have "process_unread_important_messages cfg resp net w cl fc =
         \<lparr> returned = 0, file_after = fc, attempts = [] \<rparr>"
    using True by (simp add: process_unread_important_messages_def Let_def)
  ultimately show ?thesis by (rule short)
next
  case False
  obtain st' sent' lg' where sw:
    "sweep_dialogs cfg net cl (snd (fetch_important_contacts cfg resp)) (iter_dialogs cl)
         (load_state fc, 0, []) = (st', sent', lg')"
    by (metis prod_cases3)
  moreover have "process_unread_important_messages cfg resp net w cl fc =
         \<lparr> returned = sent',
           file_after = (if sent' > 0 then save_state w st' fc else fc),
           attempts = lg' \<rparr>"
    unfolding process_unread_important_messages_def Let_def if_not_P[OF False] sw by simp
  ultimately show ?thesis by (rule run)
qed

lemma backfill_pass_cases:
  obtains (short) "snd (fetch_important_contacts cfg resp) = ({}, {})"
      "backfill_history cfg resp net w now cl fc =
         \<lparr> returned = 0, file_after = fc, attempts = [] \<rparr>"
  | (run) st' tot' upd' lg' where
      "backfill_dialogs cfg net cl (snd (fetch_important_contacts cfg resp))
         (backfill_cutoff cfg now)
         (iter_dialogs cl) (load_state fc, 0, 0, []) = (st', tot', upd', lg')"
      "backfill_history cfg resp net w now cl fc =
         \<lparr> returned = tot',
           file_after = (if upd' > 0 then save_state w st' fc else fc),
           attempts = lg' \<rparr>"
proof (cases "fst (snd (fetch_important_contacts cfg resp)) = {}
    \<and> snd (snd (fetch_important_contacts cfg resp)) = {}")
  case True
  then have "snd (fetch_important_contacts cfg resp) = ({}, {})" by (simp add: prod_eq_iff)
  moreover have "backfill_history cfg resp net w now cl fc =
         \<lparr> returned = 0, file_after = fc, attempts = [] \<rparr>"
    using True by (simp add: backfill_history_def Let_def)
  ultimately show ?thesis by (rule short)
next
  case False
  obtain st' tot' upd' lg' where sw:
    "backfill_dialogs cfg net cl (snd (fetch_important_contacts cfg resp))
         (backfill_cutoff cfg now)
         (iter_dialogs cl) (load_state fc, 0, 0, []) = (st', tot', upd', lg')"
    by (metis prod_cases4)
  moreover have "backfill_history cfg resp net w now cl fc =
         \<lparr> returned = tot',
           file_after = (if upd' > 0 then save_state w st' fc else fc),
           attempts = lg' \<rparr>"
    unfolding backfill_history_def Let_def if_not_P[OF False] sw by simp
  ultimately show ?thesis by (rule run)
qed

lemma cron_pass_above_watermark:
  "a \<in> set (attempts (process_unread_important_messages cfg resp net w cl fc)) \<Longrightarrow>
     state_get (load_state fc) (att_key a) < att_id a"
proof (cases rule: cron_pass_cases[where cfg=cfg and resp=resp and net=net and w=w and cl=cl and fc=fc])
  case short
  assume "a \<in> set (attempts (process_unread_important_messages cfg resp net w cl fc))"
  with short show ?thesis by simp
next
  case (run st' sent' lg')
  assume "a \<in> set (attempts (process_unread_important_messages cfg resp net w cl fc))"
  with run(2) have "a \<in> set lg'" by simp
  with sweep_dialogs_inv[OF run(1)] show ?thesis by auto
qed

lemma backfill_pass_above_watermark:
  "a \<in> set (attempts (backfill_history cfg resp net w now cl fc)) \<Longrightarrow>
     state_get (load_state fc) (att_key a) < att_id a"
proof (cases rule: backfill_pass_cases[where cfg=cfg and resp=resp and net=net and w=w and now=now and cl=cl and fc=fc])
  case short
  assume "a \<in> set (attempts (backfill_history cfg resp net w now cl fc))"
  with short show ?thesis by simp
next
  case (run st' tot' upd' lg')
  assume "a \<in> set (attempts (backfill_history cfg resp net w now cl fc))"
  with run(2) have "a \<in> set lg'" by simp
  with backfill_dialogs_inv[OF run(1)] show ?thesis by auto
qed



subsection \<open>The watermark as a fold over the attempts\<close>



lemma forward_unread_fold:
  "forward_unread cfg net d key ms (lf, sent, lg) = (lf', sent', lg') \<Longrightarrow>
   \<exists>new. lg' = lg @ new \<and> lf' = fold advance new lf
     \<and> (\<forall>m\<in>set ms. msg_id m \<le> lf'
            \<or> (\<exists>a\<in>set new. att_body a = with_account cfg (cron_payload d m)))"
proof (induction ms arbitrary: lf sent lg)
  case Nil
  then show ?case by simp
next
  case (Cons m ms)
  show ?case
  proof (cases "msg_id m \<le> lf")
    case True
    with Cons.prems have run: "forward_unread cfg net d key ms (lf, sent, lg) = (lf', sent', lg')"
      by simp
    from forward_unread_inv[OF run] have "lf \<le> lf'" by blast
    with True have "msg_id m \<le> lf'" by simp
    with Cons.IH[OF run] show ?thesis by auto
  next
    case False
    let ?body = "with_account cfg (cron_payload d m)"
    let ?a = "\<lambda>b. \<lparr>att_key = key, att_body = ?body, att_ok = b\<rparr>"
    have mid: "advance (?a True) v = max v (msg_id m)" "advance (?a False) v = v" for v
      by (simp_all add: advance_def att_id_def cron_payload_def Let_def)
    show ?thesis
    proof (cases "net (length lg) ?body")
      case True
      with False Cons.prems have
        "forward_unread cfg net d key ms (max lf (msg_id m), sent + 1, lg @ [?a True])
           = (lf', sent', lg')"
        by (simp add: send_to_backend_def Let_def)
      from Cons.IH[OF this] obtain new where new:
        "lg' = (lg @ [?a True]) @ new" "lf' = fold advance new (max lf (msg_id m))"
        "\<forall>m\<in>set ms. msg_id m \<le> lf'
            \<or> (\<exists>a\<in>set new. att_body a = with_account cfg (cron_payload d m))"
        by blast
      show ?thesis
        apply (rule exI[of _ "?a True # new"])
        using new mid by auto
    next
      case F2: False
      with False Cons.prems have
        "forward_unread cfg net d key ms (lf, sent, lg @ [?a False]) = (lf', sent', lg')"
        by (simp add: send_to_backend_def Let_def)
      from Cons.IH[OF this] obtain new where new:
        "lg' = (lg @ [?a False]) @ new" "lf' = fold advance new lf"
        "\<forall>m\<in>set ms. msg_id m \<le> lf'
            \<or> (\<exists>a\<in>set new. att_body a = with_account cfg (cron_payload d m))"
        by blast
      show ?thesis
        apply (rule exI[of _ "?a False # new"])
        using new mid by auto
    qed
  qed
qed

lemma forward_history_fold:
  "forward_history cfg net d key ms (lf, tot, lg) = (lf', tot', lg') \<Longrightarrow>
   \<exists>new. lg' = lg @ new \<and> lf' = fold advance new lf
     \<and> map att_body new = map (\<lambda>m. with_account cfg (history_payload d m)) ms"
proof (induction ms arbitrary: lf tot lg)
  case Nil
  then show ?case by simp
next
  case (Cons m ms)
  let ?body = "with_account cfg (history_payload d m)"
  let ?a = "\<lambda>b. \<lparr>att_key = key, att_body = ?body, att_ok = b\<rparr>"
  have mid: "advance (?a True) v = max v (msg_id m)" "advance (?a False) v = v" for v
    by (simp_all add: advance_def att_id_def history_payload_def Let_def)
  show ?case
  proof (cases "net (length lg) ?body")
    case True
    with Cons.prems have
      "forward_history cfg net d key ms (max lf (msg_id m), tot + 1, lg @ [?a True])
         = (lf', tot', lg')"
      by (simp add: send_to_backend_def Let_def)
    from Cons.IH[OF this] obtain new where new:
      "lg' = (lg @ [?a True]) @ new" "lf' = fold advance new (max lf (msg_id m))"
      "map att_body new = map (\<lambda>m. with_account cfg (history_payload d m)) ms"
      by blast
    show ?thesis
      apply (rule exI[of _ "?a True # new"])
      using new mid by auto
  next
    case False
    with Cons.prems have
      "forward_history cfg net d key ms (lf, tot, lg @ [?a False]) = (lf', tot', lg')"
      by (simp add: send_to_backend_def Let_def)
    from Cons.IH[OF this] obtain new where new:
      "lg' = (lg @ [?a False]) @ new" "lf' = fold advance new lf"
      "map att_body new = map (\<lambda>m. with_account cfg (history_payload d m)) ms"
      by blast
    show ?thesis
      apply (rule exI[of _ "?a False # new"])
      using new mid by auto
  qed
qed

subsection \<open>Where an attempt comes from\<close>





subsection \<open>The backfill walk\<close>



lemma backfill_dialog_attempts:
  assumes "backfill_selects cfg important d"
    and "backfill_dialog cfg net cl important cutoff d (st, tot, upd, lg) = (st', tot', upd', lg')"
  shows "map att_body (drop (length lg) lg')
     = map (\<lambda>m. with_account cfg (history_payload d m))
         (rev (takeWhile (walk_passes cutoff (state_get st (chat_key d)))
                (history_stream cfg cl d)))"
proof -
  from backfill_dialog_step[OF assms(2)] obtain new where
    "lg' = lg @ new"
    "backfill_selects cfg important d \<longrightarrow>
          map att_body new = map (\<lambda>m. with_account cfg (history_payload d m))
            (rev (takeWhile (walk_passes cutoff (state_get st (chat_key d)))
                    (history_stream cfg cl d)))"
    by blast
  with assms(1) show ?thesis by simp
qed

subsection \<open>Short circuit and live handler\<close>

lemma fetch_empty_cases:
  assumes "case resp of
             RequestRaises \<Rightarrow> True
           | Body data \<Rightarrow>
               (case data of
                  JObj kvs \<Rightarrow> iter_json (dict_get kvs ''contacts'' (JArr [])) = None
                           \<or> iter_json (dict_get kvs ''contacts'' (JArr [])) = Some []
                | _ \<Rightarrow> True)"
  shows "snd (fetch_important_contacts cfg resp) = ({}, {})"
  using assms
  by (auto simp: fetch_important_contacts_def split: http_response.splits json.splits option.splits)

lemma short_circuit:
  assumes "snd (fetch_important_contacts cfg resp) = ({}, {})"
  shows "process_unread_important_messages cfg resp net w cl fc
           = \<lparr> returned = 0, file_after = fc, attempts = [] \<rparr>"
    and "backfill_history cfg resp net w now cl fc
           = \<lparr> returned = 0, file_after = fc, attempts = [] \<rparr>"
  using assms
  by (simp_all add: process_unread_important_messages_def backfill_history_def Let_def)



subsection \<open>Order of the attempts\<close>

lemma forward_unread_sorted:
  assumes "sorted_wrt (<) (map msg_id ms)"
    and "forward_unread cfg net d key ms (lf, sent, lg) = (lf', sent', lg')"
  shows "map att_body (drop (length lg) lg')
     = map (\<lambda>m. with_account cfg (cron_payload d m)) (filter (\<lambda>m. lf < msg_id m) ms)"
  using assms
proof (induction ms arbitrary: lf sent lg)
  case Nil
  then show ?case by simp
next
  case (Cons m ms)
  from Cons.prems(1) have later: "\<forall>x\<in>set ms. msg_id m < msg_id x"
    and srt: "sorted_wrt (<) (map msg_id ms)"
    by auto
  show ?case
  proof (cases "msg_id m \<le> lf")
    case True
    with Cons.prems(2) have "forward_unread cfg net d key ms (lf, sent, lg) = (lf', sent', lg')"
      by simp
    from Cons.IH[OF srt this] True show ?thesis by simp
  next
    case False
    let ?body = "with_account cfg (cron_payload d m)"
    let ?a = "\<lambda>b. \<lparr>att_key = key, att_body = ?body, att_ok = b\<rparr>"
    obtain lf2 sent2 b where run:
      "forward_unread cfg net d key ms (lf2, sent2, lg @ [?a b]) = (lf', sent', lg')"
      and lf2: "lf2 \<le> max lf (msg_id m)"
      using False Cons.prems(2)
      by (cases "net (length lg) ?body") (auto simp: send_to_backend_def Let_def)
    from forward_unread_inv[OF run] obtain new where new: "lg' = (lg @ [?a b]) @ new"
      by blast
    have all: "filter (\<lambda>x. lf2 < msg_id x) ms = ms" "filter (\<lambda>x. lf < msg_id x) ms = ms"
      using later lf2 False by (auto simp: filter_id_conv)
    from Cons.IH[OF srt run] have
      "map att_body new = map (\<lambda>m. with_account cfg (cron_payload d m)) ms"
      using new all by simp
    then show ?thesis using new all False by simp
  qed
qed

lemma oldest_first:
  assumes "sorted_wrt (>) (map msg_id xs)"
  shows "sorted_wrt (<) (map msg_id (rev xs))"
  unfolding rev_map[symmetric] sorted_wrt_rev using assms .

lemma sweep_dialog_attempts:
  assumes "sweep_selects cfg important d"
    and "sorted_wrt (>) (map msg_id (unread_batch cl d))"
    and "sweep_dialog cfg net cl important d (st, sent, lg) = (st', sent', lg')"
  shows "map att_body (drop (length lg) lg')
     = map (\<lambda>m. with_account cfg (cron_payload d m))
         (filter (\<lambda>m. state_get st (chat_key d) < msg_id m) (rev (unread_batch cl d)))"
proof -
  obtain lf' s' l' where fu:
    "forward_unread cfg net d (chat_key d) (rev (unread_batch cl d))
        (state_get st (chat_key d), sent, lg) = (lf', s', l')"
    by (metis prod_cases3)
  from assms(1,3) fu have "lg' = l'"
    by (auto simp: sweep_dialog_def sweep_selects_def Let_def chat_key_def unread_batch_def)
  moreover have "sorted_wrt (<) (map msg_id (rev (unread_batch cl d)))"
    using assms(2) by (rule oldest_first)
  ultimately show ?thesis using forward_unread_sorted[OF _ fu] by simp
qed

lemma cron_payload_id [simp]: "p_message_id (cron_payload d m) = msg_id m"
  by (simp add: cron_payload_def Let_def)

lemma history_payload_id [simp]: "p_message_id (history_payload d m) = msg_id m"
  by (simp add: history_payload_def Let_def)

lemma att_id_map: "map att_id xs = map p_message_id (map att_body xs)"
  by (simp add: att_id_def)

lemma sweep_dialog_sorted:
  assumes "sorted_wrt (>) (map msg_id (unread_batch cl d))"
    and "sweep_dialog cfg net cl important d (st, sent, lg) = (st', sent', lg')"
  shows "sorted_wrt (<) (map att_id (drop (length lg) lg'))"
proof (cases "sweep_selects cfg important d")
  case False
  with assms(2) have "lg' = lg" by (simp add: sweep_dialog_skip)
  then show ?thesis by simp
next
  case True
  have srt: "sorted_wrt (<) (map msg_id (rev (unread_batch cl d)))"
    using assms(1) by (rule oldest_first)
  have "map att_id (drop (length lg) lg')
      = map msg_id (filter (\<lambda>m. state_get st (chat_key d) < msg_id m) (rev (unread_batch cl d)))"
    unfolding att_id_map sweep_dialog_attempts[OF True assms] by (simp add: comp_def)
  also have "\<dots> = filter (\<lambda>i. state_get st (chat_key d) < i) (map msg_id (rev (unread_batch cl d)))"
    by (simp add: filter_map comp_def)
  finally show ?thesis using srt by (simp add: sorted_wrt_filter)
qed

lemma filter_key_none:
  assumes "\<forall>a\<in>set xs. att_key a \<noteq> k"
  shows "filter (\<lambda>a. att_key a = k) xs = []"
  using assms by (simp add: filter_empty_conv)

lemma filter_key_all:
  assumes "\<forall>a\<in>set xs. att_key a = k"
  shows "filter (\<lambda>a. att_key a = k) xs = xs"
  using assms by (simp add: filter_id_conv)

lemma sweep_dialogs_sorted:
  assumes "distinct (map chat_key ds)"
    and "\<forall>d\<in>set ds. sorted_wrt (>) (map msg_id (unread_batch cl d))"
    and "sweep_dialogs cfg net cl important ds (st, sent, lg) = (st', sent', lg')"
  shows "sorted_wrt (<) (map att_id (filter (\<lambda>a. att_key a = k) (drop (length lg) lg')))"
  using assms
proof (induction ds arbitrary: st sent lg)
  case Nil
  then show ?case by simp
next
  case (Cons d ds)
  obtain st1 sent1 lg1 where step:
    "sweep_dialog cfg net cl important d (st, sent, lg) = (st1, sent1, lg1)"
    by (metis prod_cases3)
  with Cons.prems(3) have rest:
    "sweep_dialogs cfg net cl important ds (st1, sent1, lg1) = (st', sent', lg')"
    by simp
  from sweep_dialog_step[OF step] obtain n1 where n1:
    "lg1 = lg @ n1" "\<forall>a\<in>set n1. att_key a = chat_key d"
    by blast
  from sweep_dialogs_inv[OF rest] obtain n2 where n2full:
    "lg' = lg1 @ n2"
    "\<forall>a\<in>set n2. state_get st1 (att_key a) < att_id a
            \<and> (\<exists>d\<in>set ds. att_key a = chat_key d \<and> sweep_selects cfg important d
                 \<and> (\<exists>m\<in>set (unread_batch cl d).
                       att_body a = with_account cfg (cron_payload d m)))"
    by blast
  have n2: "lg' = lg1 @ n2" "\<forall>a\<in>set n2. \<exists>d'\<in>set ds. att_key a = chat_key d'"
    using n2full by blast+
  have d1: "drop (length lg) lg1 = n1" and d2: "drop (length lg1) lg' = n2"
    and d12: "drop (length lg) lg' = n1 @ n2"
    using n1(1) n2(1) by simp_all
  have s1: "sorted_wrt (<) (map att_id n1)"
    using sweep_dialog_sorted[OF _ step] Cons.prems(2) d1 by simp
  have s2: "sorted_wrt (<) (map att_id (filter (\<lambda>a. att_key a = k) n2))"
    using Cons.IH[OF _ _ rest] Cons.prems(1,2) d2 by simp
  have fresh: "chat_key d \<notin> chat_key ` set ds" using Cons.prems(1) by simp
  show ?case
  proof (cases "k = chat_key d")
    case True
    have "\<forall>a\<in>set n2. att_key a \<noteq> k"
    proof
      fix a assume "a \<in> set n2"
      with n2(2) obtain d' where "d' \<in> set ds" "att_key a = chat_key d'" by blast
      with fresh True show "att_key a \<noteq> k" by (metis imageI)
    qed
    then have "filter (\<lambda>a. att_key a = k) n2 = []" by (rule filter_key_none)
    moreover have "filter (\<lambda>a. att_key a = k) n1 = n1"
      using n1(2) True by (intro filter_key_all) simp
    ultimately show ?thesis using s1 d12 by simp
  next
    case False
    have "filter (\<lambda>a. att_key a = k) n1 = []"
      using n1(2) False by (intro filter_key_none) simp
    then show ?thesis using s2 d12 by simp
  qed
qed


lemma sorted_takeWhile_ids:
  assumes "sorted_wrt (>) (map msg_id xs)"
  shows "sorted_wrt (>) (map msg_id (takeWhile P xs))"
proof -
  have "map msg_id (takeWhile P xs) = take (length (takeWhile P xs)) (map msg_id xs)"
    by (metis take_map takeWhile_eq_take)
  then show ?thesis using assms by (metis sorted_wrt_take)
qed

lemma backfill_dialog_sorted:
  assumes "sorted_wrt (>) (map msg_id (history_stream cfg cl d))"
    and "backfill_dialog cfg net cl important cutoff d (st, tot, upd, lg) = (st', tot', upd', lg')"
  shows "sorted_wrt (<) (map att_id (drop (length lg) lg'))"
proof (cases "backfill_selects cfg important d")
  case False
  with assms(2) have "lg' = lg" by (simp add: backfill_dialog_skip)
  then show ?thesis by simp
next
  case True
  let ?ms = "takeWhile (walk_passes cutoff (state_get st (chat_key d))) (history_stream cfg cl d)"
  have srt: "sorted_wrt (<) (map msg_id (rev ?ms))"
    using assms(1) by (intro oldest_first sorted_takeWhile_ids)
  have "map att_id (drop (length lg) lg') = map msg_id (rev ?ms)"
    unfolding att_id_map backfill_dialog_attempts[OF True assms(2)] by (simp add: comp_def)
  with srt show ?thesis by simp
qed

lemma backfill_dialogs_sorted:
  assumes "distinct (map chat_key ds)"
    and "\<forall>d\<in>set ds. sorted_wrt (>) (map msg_id (history_stream cfg cl d))"
    and "backfill_dialogs cfg net cl important cutoff ds (st, tot, upd, lg) = (st', tot', upd', lg')"
  shows "sorted_wrt (<) (map att_id (filter (\<lambda>a. att_key a = k) (drop (length lg) lg')))"
  using assms
proof (induction ds arbitrary: st tot upd lg)
  case Nil
  then show ?case by simp
next
  case (Cons d ds)
  obtain st1 tot1 upd1 lg1 where step:
    "backfill_dialog cfg net cl important cutoff d (st, tot, upd, lg) = (st1, tot1, upd1, lg1)"
    by (metis prod_cases4)
  with Cons.prems(3) have rest:
    "backfill_dialogs cfg net cl important cutoff ds (st1, tot1, upd1, lg1) = (st', tot', upd', lg')"
    by simp
  from backfill_dialog_step[OF step] obtain n1 where n1full:
    "lg1 = lg @ n1"
    "\<forall>a\<in>set n1. att_key a = chat_key d \<and> backfill_selects cfg important d
            \<and> state_get st (chat_key d) < att_id a"
    by blast
  have n1: "lg1 = lg @ n1" "\<forall>a\<in>set n1. att_key a = chat_key d"
    using n1full by blast+
  from backfill_dialogs_inv[OF rest] obtain n2 where n2full:
    "lg' = lg1 @ n2"
    "\<forall>a\<in>set n2. state_get st1 (att_key a) < att_id a
            \<and> (\<exists>d\<in>set ds. att_key a = chat_key d \<and> backfill_selects cfg important d)"
    by blast
  have n2: "lg' = lg1 @ n2" "\<forall>a\<in>set n2. \<exists>d'\<in>set ds. att_key a = chat_key d'"
    using n2full by blast+
  have d1: "drop (length lg) lg1 = n1" and d2: "drop (length lg1) lg' = n2"
    and d12: "drop (length lg) lg' = n1 @ n2"
    using n1(1) n2(1) by simp_all
  have s1: "sorted_wrt (<) (map att_id n1)"
    using backfill_dialog_sorted[OF _ step] Cons.prems(2) d1 by simp
  have s2: "sorted_wrt (<) (map att_id (filter (\<lambda>a. att_key a = k) n2))"
    using Cons.IH[OF _ _ rest] Cons.prems(1,2) d2 by simp
  have fresh: "chat_key d \<notin> chat_key ` set ds" using Cons.prems(1) by simp
  show ?case
  proof (cases "k = chat_key d")
    case True
    have "\<forall>a\<in>set n2. att_key a \<noteq> k"
    proof
      fix a assume "a \<in> set n2"
      with n2(2) obtain d' where "d' \<in> set ds" "att_key a = chat_key d'" by blast
      with fresh True show "att_key a \<noteq> k" by (metis imageI)
    qed
    then have "filter (\<lambda>a. att_key a = k) n2 = []" by (rule filter_key_none)
    moreover have "filter (\<lambda>a. att_key a = k) n1 = n1"
      using n1(2) True by (intro filter_key_all) simp
    ultimately show ?thesis using s1 d12 by simp
  next
    case False
    have "filter (\<lambda>a. att_key a = k) n1 = []"
      using n1(2) False by (intro filter_key_none) simp
    then show ?thesis using s2 d12 by simp
  qed
qed




subsection \<open>A failed delivery and the next pass\<close>



lemma cron_pass_sorted:
  assumes "distinct (map chat_key (iter_dialogs cl))"
    and "\<forall>d\<in>set (iter_dialogs cl). sorted_wrt (>) (map msg_id (unread_batch cl d))"
  shows "sorted_wrt (<) (map att_id (filter (\<lambda>a. att_key a = k)
           (attempts (process_unread_important_messages cfg resp net w cl fc))))"
proof (cases rule: cron_pass_cases[where cfg=cfg and resp=resp and net=net and w=w and cl=cl and fc=fc])
  case short
  then show ?thesis by simp
next
  case (run st' sent' lg')
  from sweep_dialogs_sorted[OF assms run(1), of k] run(2) show ?thesis by simp
qed

lemma backfill_pass_sorted:
  assumes "distinct (map chat_key (iter_dialogs cl))"
    and "\<forall>d\<in>set (iter_dialogs cl). sorted_wrt (>) (map msg_id (history_stream cfg cl d))"
  shows "sorted_wrt (<) (map att_id (filter (\<lambda>a. att_key a = k)
           (attempts (backfill_history cfg resp net w now cl fc))))"
proof (cases rule: backfill_pass_cases[where cfg=cfg and resp=resp and net=net and w=w and now=now and cl=cl and fc=fc])
  case short
  then show ?thesis by simp
next
  case (run st' tot' upd' lg')
  from backfill_dialogs_sorted[OF assms run(1), of k] run(2) show ?thesis by simp
qed

section \<open>Properties of the forwarding core\<close>

text \<open>
  C6. No redelivery: every delivery the cron sweep or the backfill attempts is for a message
  whose id is strictly above the watermark stored for its chat when the pass starts; a
  message whose id is at most the stored watermark, or equal to it, is never attempted.
\<close>

theorem no_redelivery:
  "(\<forall>a\<in>set (attempts (process_unread_important_messages cfg resp net w cl fc)).
       \<not> att_id a \<le> state_get (load_state fc) (att_key a))
   \<and> (\<forall>a\<in>set (attempts (backfill_history cfg resp net w now cl fc)).
       \<not> att_id a \<le> state_get (load_state fc) (att_key a))"
  using cron_pass_above_watermark backfill_pass_above_watermark
  by (metis not_less)

theorem no_redelivery_witness:
  "attempted_ids (attempts cron_at_watermark) = [102]
   \<and> attempted_ids (attempts backfill_at_watermark) = [102]
   \<and> state_get (load_state file_101) ''User:555'' = 101
   \<and> \<not> att_id (hd (attempts cron_at_watermark))
         \<le> state_get (load_state file_101) (att_key (hd (attempts cron_at_watermark)))
   \<and> \<not> att_id (hd (attempts backfill_at_watermark))
         \<le> state_get (load_state file_101) (att_key (hd (attempts backfill_at_watermark)))"
proof -
  have c: "hd (attempts cron_at_watermark) \<in> set (attempts cron_at_watermark)"
    by code_simp
  have b: "hd (attempts backfill_at_watermark) \<in> set (attempts backfill_at_watermark)"
    by code_simp
  have ids: "attempted_ids (attempts cron_at_watermark) = [102]"
    "attempted_ids (attempts backfill_at_watermark) = [102]"
    "state_get (load_state file_101) ''User:555'' = 101"
    by code_simp+
  from c b ids show ?thesis
    using no_redelivery[of cfg_all contacts_555 accepts_all Written
        "client_555 2 [text_message 102 0, text_message 101 0]" file_101 0]
    unfolding cron_at_watermark_def backfill_at_watermark_def by blast
qed



text \<open>
  C4. A failed delivery leaves the watermark where it is and does not end the batch: the
  final in-memory watermark is obtained by running over the attempts in order, a failure
  leaving it unchanged and a success replacing it by the maximum of itself and the
  delivered id, and every message of the batch is either attempted or not above the final
  watermark (cron sweep), or attempted (backfill). With no stored watermark and messages
  1, 2, 3 processed oldest first, 2 rejected and 1 and 3 accepted, the watermark ends at 3.
\<close>

theorem partial_failure_continues:
  "(forward_unread cfg net d key ms (lf, sent, lg) = (lf', sent', lg') \<longrightarrow>
      lf' = fold advance (drop (length lg) lg') lf
      \<and> (\<forall>m\<in>set ms. msg_id m \<le> lf'
            \<or> (\<exists>a\<in>set (drop (length lg) lg').
                  att_body a = with_account cfg (cron_payload d m))))
   \<and> (forward_history cfg net d key ms (lf, sent, lg) = (lf', sent', lg') \<longrightarrow>
      lf' = fold advance (drop (length lg) lg') lf
      \<and> map att_body (drop (length lg) lg')
          = map (\<lambda>m. with_account cfg (history_payload d m)) ms)
   \<and> (\<not> att_ok a \<longrightarrow> advance a v = v)
   \<and> (att_ok a \<longrightarrow> advance a v = max v (att_id a))
   \<and> outcomes (attempts cron_partial_failure) = [(1, True), (2, False), (3, True)]
   \<and> state_get (load_state (file_after cron_partial_failure)) ''User:555'' = 3
   \<and> outcomes (attempts backfill_partial_failure) = [(1, True), (2, False), (3, True)]
   \<and> state_get (load_state (file_after backfill_partial_failure)) ''User:555'' = 3"
proof -
  have u: "forward_unread cfg net d key ms (lf, sent, lg) = (lf', sent', lg') \<longrightarrow>
      lf' = fold advance (drop (length lg) lg') lf
      \<and> (\<forall>m\<in>set ms. msg_id m \<le> lf'
            \<or> (\<exists>a\<in>set (drop (length lg) lg').
                  att_body a = with_account cfg (cron_payload d m)))"
  proof
    assume "forward_unread cfg net d key ms (lf, sent, lg) = (lf', sent', lg')"
    from forward_unread_fold[OF this] obtain new where new:
      "lg' = lg @ new" "lf' = fold advance new lf"
      "\<forall>m\<in>set ms. msg_id m \<le> lf'
            \<or> (\<exists>a\<in>set new. att_body a = with_account cfg (cron_payload d m))"
      by blast
    from new(1) have "drop (length lg) lg' = new" by simp
    with new(2,3) show "lf' = fold advance (drop (length lg) lg') lf
      \<and> (\<forall>m\<in>set ms. msg_id m \<le> lf'
            \<or> (\<exists>a\<in>set (drop (length lg) lg').
                  att_body a = with_account cfg (cron_payload d m)))"
      by simp
  qed
  have h: "forward_history cfg net d key ms (lf, sent, lg) = (lf', sent', lg') \<longrightarrow>
      lf' = fold advance (drop (length lg) lg') lf
      \<and> map att_body (drop (length lg) lg')
          = map (\<lambda>m. with_account cfg (history_payload d m)) ms"
  proof
    assume "forward_history cfg net d key ms (lf, sent, lg) = (lf', sent', lg')"
    from forward_history_fold[OF this] obtain new where new:
      "lg' = lg @ new" "lf' = fold advance new lf"
      "map att_body new = map (\<lambda>m. with_account cfg (history_payload d m)) ms"
      by blast
    from new(1) have "drop (length lg) lg' = new" by simp
    with new(2,3) show "lf' = fold advance (drop (length lg) lg') lf
      \<and> map att_body (drop (length lg) lg')
          = map (\<lambda>m. with_account cfg (history_payload d m)) ms"
      by simp
  qed
  have adv: "(\<not> att_ok a \<longrightarrow> advance a v = v) \<and> (att_ok a \<longrightarrow> advance a v = max v (att_id a))"
    by (simp add: advance_def)
  have c1: "outcomes (attempts cron_partial_failure) = [(1, True), (2, False), (3, True)]"
    by code_simp
  have c2: "state_get (load_state (file_after cron_partial_failure)) ''User:555'' = 3"
    by code_simp
  have b1: "outcomes (attempts backfill_partial_failure) = [(1, True), (2, False), (3, True)]"
    by code_simp
  have b2: "state_get (load_state (file_after backfill_partial_failure)) ''User:555'' = 3"
    by code_simp
  from u h adv c1 c2 b1 b2 show ?thesis by blast
qed

theorem partial_failure_continues_witness:
  "fst (forward_unread cfg_all (fails_on 2) (dialog_555 3) ''User:555''
          (rev three_messages) (0, 0, []))
     = fold advance (snd (snd (forward_unread cfg_all (fails_on 2) (dialog_555 3) ''User:555''
          (rev three_messages) (0, 0, [])))) 0
   \<and> fst (forward_history cfg_all (fails_on 2) (dialog_555 3) ''User:555''
          (rev three_messages) (0, 0, []))
     = fold advance (snd (snd (forward_history cfg_all (fails_on 2) (dialog_555 3) ''User:555''
          (rev three_messages) (0, 0, [])))) 0
   \<and> fst (forward_unread cfg_all (fails_on 2) (dialog_555 3) ''User:555''
          (rev three_messages) (0, 0, [])) = 3
   \<and> outcomes (snd (snd (forward_unread cfg_all (fails_on 2) (dialog_555 3) ''User:555''
          (rev three_messages) (0, 0, [])))) = [(1, True), (2, False), (3, True)]"
proof -
  let ?u = "forward_unread cfg_all (fails_on 2) (dialog_555 3) ''User:555''
          (rev three_messages) (0, 0, [])"
  let ?h = "forward_history cfg_all (fails_on 2) (dialog_555 3) ''User:555''
          (rev three_messages) (0, 0, [])"
  have u: "?u = (fst ?u, fst (snd ?u), snd (snd ?u))" by simp
  have h: "?h = (fst ?h, fst (snd ?h), snd (snd ?h))" by simp
  have 1: "fst ?u = fold advance (snd (snd ?u)) 0"
    using u partial_failure_continues[where cfg=cfg_all and net="fails_on 2"
        and d="dialog_555 3" and key="''User:555''" and ms="rev three_messages"
        and lf=0 and sent=0 and lg="[]" and lf'="fst ?u" and sent'="fst (snd ?u)"
        and lg'="snd (snd ?u)"]
    by simp
  have 2: "fst ?h = fold advance (snd (snd ?h)) 0"
    using h partial_failure_continues[where cfg=cfg_all and net="fails_on 2"
        and d="dialog_555 3" and key="''User:555''" and ms="rev three_messages"
        and lf=0 and sent=0 and lg="[]" and lf'="fst ?h" and sent'="fst (snd ?h)"
        and lg'="snd (snd ?h)"]
    by simp
  have 3: "fst ?u = 3" by code_simp
  have 4: "outcomes (snd (snd ?u)) = [(1, True), (2, False), (3, True)]" by code_simp
  from 1 2 3 4 show ?thesis by blast
qed






text \<open>
  C10, as the code has it. When the request for the important contacts raises, or its
  body is not an object, or the contacts in it cannot be iterated or are empty, the fetch
  gives two empty sets; and whenever the fetch gives two empty sets, the cron sweep and the
  backfill return 0 at once: no delivery is attempted and the state file is left as it was.
\<close>

theorem failed_fetch_short_circuits:
  "((case resp of
       RequestRaises \<Rightarrow> True
     | Body data \<Rightarrow>
         (case data of
            JObj kvs \<Rightarrow> iter_json (dict_get kvs ''contacts'' (JArr [])) = None
                     \<or> iter_json (dict_get kvs ''contacts'' (JArr [])) = Some []
          | _ \<Rightarrow> True)) \<longrightarrow>
      snd (fetch_important_contacts cfg resp) = ({}, {}))
   \<and> (snd (fetch_important_contacts cfg resp) = ({}, {}) \<longrightarrow>
        process_unread_important_messages cfg resp net w cl fc
          = \<lparr> returned = 0, file_after = fc, attempts = [] \<rparr>
        \<and> backfill_history cfg resp net w now cl fc
          = \<lparr> returned = 0, file_after = fc, attempts = [] \<rparr>)"
  using fetch_empty_cases[of resp cfg] short_circuit(1)[of cfg resp net w cl fc]
    short_circuit(2)[of cfg resp net w now cl fc]
  by blast

theorem failed_fetch_short_circuits_witness:
  "fetch_important_contacts cfg_all RequestRaises = (True, {}, {})
   \<and> process_unread_important_messages cfg_all RequestRaises accepts_all Written
        (client_555 3 three_messages) file_101
      = \<lparr> returned = 0, file_after = file_101, attempts = [] \<rparr>
   \<and> backfill_history cfg_all RequestRaises accepts_all Written 0
        (client_555 3 three_messages) file_101
      = \<lparr> returned = 0, file_after = file_101, attempts = [] \<rparr>"
proof -
  have 1: "fetch_important_contacts cfg_all RequestRaises = (True, {}, {})"
    by (simp add: fetch_important_contacts_def cfg_all_def truthy_str_def)
  have 2: "case RequestRaises of
       RequestRaises \<Rightarrow> True
     | Body data \<Rightarrow>
         (case data of
            JObj kvs \<Rightarrow> iter_json (dict_get kvs ''contacts'' (JArr [])) = None
                     \<or> iter_json (dict_get kvs ''contacts'' (JArr [])) = Some []
          | _ \<Rightarrow> True)"
    by simp
  from 1 2 show ?thesis
    using failed_fetch_short_circuits[where resp=RequestRaises and cfg=cfg_all
        and net=accepts_all and w=Written and cl="client_555 3 three_messages"
        and fc=file_101 and now=0]
    by blast
qed

theorem failed_fetch_partial_counterexample:
  "fetch_important_contacts cfg_all contacts_malformed = (True, {555}, {})
   \<and> outcomes (attempts cron_malformed_contacts) = [(1, True), (2, True), (3, True)]
   \<and> returned cron_malformed_contacts = 3
   \<and> load_state (file_after cron_malformed_contacts) ''User:555'' = Some 3
   \<and> outcomes (attempts backfill_malformed_contacts) = [(1, True), (2, True), (3, True)]
   \<and> returned backfill_malformed_contacts = 3
   \<and> load_state (file_after backfill_malformed_contacts) ''User:555'' = Some 3"
  by code_simp

text \<open>
  C1. The backfill applies the ignore filter and the importance filter to a dialog, and not
  the watch scope: with a scope that names chat 123 only, the important chat 555 is out of
  scope, the cron sweep skips it, and the backfill posts its three messages.
\<close>

theorem backfill_ignores_watch_scope:
  "\<not> should_forward cfg_scoped (Some user_555)
   \<and> backfill_selects cfg_scoped (snd (fetch_important_contacts cfg_scoped contacts_555))
        (dialog_555 3)
   \<and> outcomes (attempts backfill_out_of_scope) = [(1, True), (2, True), (3, True)]
   \<and> load_state (file_after backfill_out_of_scope) ''User:555'' = Some 3
   \<and> attempts cron_out_of_scope = []"
  by code_simp

theorem backfill_ignores_watch_scope_witness:
  "\<not> should_forward cfg_scoped (Some user_555)
   \<and> outcomes (attempts backfill_out_of_scope) = [(1, True), (2, True), (3, True)]"
  using backfill_ignores_watch_scope by blast




text \<open>
  C9. When every chat appears once among the dialogs and the client returns a chat's
  messages newest first (ids strictly decreasing), the deliveries a pass attempts for one
  chat come in strictly increasing id order, in the cron sweep and in the backfill. The
  cron sweep asks for \<open>max(unread_count, 1)\<close> messages and walks the answer in reverse:
  it attempts, oldest first, exactly the fetched messages above the chat's watermark.
\<close>

theorem chronological_delivery:
  "(distinct (map chat_key (iter_dialogs cl))
      \<and> (\<forall>d\<in>set (iter_dialogs cl). sorted_wrt (>) (map msg_id (unread_batch cl d))) \<longrightarrow>
      sorted_wrt (<) (map att_id (filter (\<lambda>a. att_key a = k)
        (attempts (process_unread_important_messages cfg resp net w cl fc)))))
   \<and> (distinct (map chat_key (iter_dialogs cl))
      \<and> (\<forall>d\<in>set (iter_dialogs cl). sorted_wrt (>) (map msg_id (history_stream cfg cl d))) \<longrightarrow>
      sorted_wrt (<) (map att_id (filter (\<lambda>a. att_key a = k)
        (attempts (backfill_history cfg resp net w now cl fc)))))
   \<and> (sweep_selects cfg important d
      \<and> sorted_wrt (>) (map msg_id (get_messages cl (dlg_entity d) (max (unread_count d) 1)))
      \<and> sweep_dialog cfg net cl important d (st, sent, lg) = (st', sent', lg') \<longrightarrow>
      map att_body (drop (length lg) lg')
        = map (\<lambda>m. with_account cfg (cron_payload d m))
            (filter (\<lambda>m. state_get st (chat_key d) < msg_id m)
               (rev (get_messages cl (dlg_entity d) (max (unread_count d) 1)))))"
proof -
  have 1: "distinct (map chat_key (iter_dialogs cl))
      \<and> (\<forall>d\<in>set (iter_dialogs cl). sorted_wrt (>) (map msg_id (unread_batch cl d))) \<longrightarrow>
      sorted_wrt (<) (map att_id (filter (\<lambda>a. att_key a = k)
        (attempts (process_unread_important_messages cfg resp net w cl fc))))"
    using cron_pass_sorted by blast
  have 2: "distinct (map chat_key (iter_dialogs cl))
      \<and> (\<forall>d\<in>set (iter_dialogs cl). sorted_wrt (>) (map msg_id (history_stream cfg cl d))) \<longrightarrow>
      sorted_wrt (<) (map att_id (filter (\<lambda>a. att_key a = k)
        (attempts (backfill_history cfg resp net w now cl fc))))"
    using backfill_pass_sorted by blast
  have 3: "sweep_selects cfg important d
      \<and> sorted_wrt (>) (map msg_id (get_messages cl (dlg_entity d) (max (unread_count d) 1)))
      \<and> sweep_dialog cfg net cl important d (st, sent, lg) = (st', sent', lg') \<longrightarrow>
      map att_body (drop (length lg) lg')
        = map (\<lambda>m. with_account cfg (cron_payload d m))
            (filter (\<lambda>m. state_get st (chat_key d) < msg_id m)
               (rev (get_messages cl (dlg_entity d) (max (unread_count d) 1))))"
    using sweep_dialog_attempts[of cfg important d cl net st sent lg st' sent' lg']
    unfolding unread_batch_def by blast
  from 1 2 3 show ?thesis by (intro conjI)
qed

theorem chronological_delivery_witness:
  "sorted_wrt (<) (map att_id (filter (\<lambda>a. att_key a = ''User:555'')
      (attempts cron_partial_failure)))
   \<and> sorted_wrt (<) (map att_id (filter (\<lambda>a. att_key a = ''User:555'')
      (attempts backfill_partial_failure)))
   \<and> map att_id (filter (\<lambda>a. att_key a = ''User:555'') (attempts cron_partial_failure))
       = [1, 2, 3]
   \<and> map att_id (filter (\<lambda>a. att_key a = ''User:555'') (attempts backfill_partial_failure))
       = [1, 2, 3]"
proof -
  let ?cl = "client_555 3 three_messages"
  have dist: "distinct (map chat_key (iter_dialogs ?cl))" by code_simp
  have sc: "\<forall>d\<in>set (iter_dialogs ?cl). sorted_wrt (>) (map msg_id (unread_batch ?cl d))"
    by code_simp
  have sb: "\<forall>d\<in>set (iter_dialogs ?cl).
              sorted_wrt (>) (map msg_id (history_stream cfg_all ?cl d))"
    by code_simp
  have 1: "sorted_wrt (<) (map att_id (filter (\<lambda>a. att_key a = ''User:555'')
      (attempts cron_partial_failure)))"
    using dist sc chronological_delivery[where cl="?cl" and k="''User:555''" and cfg=cfg_all
        and resp=contacts_555 and net="fails_on 2" and w=Written and fc=Missing]
    unfolding cron_partial_failure_def by blast
  have 2: "sorted_wrt (<) (map att_id (filter (\<lambda>a. att_key a = ''User:555'')
      (attempts backfill_partial_failure)))"
    using dist sb chronological_delivery[where cl="?cl" and k="''User:555''" and cfg=cfg_all
        and resp=contacts_555 and net="fails_on 2" and w=Written and fc=Missing and now=0]
    unfolding backfill_partial_failure_def by blast
  have 3: "map att_id (filter (\<lambda>a. att_key a = ''User:555'') (attempts cron_partial_failure))
       = [1, 2, 3]"
    "map att_id (filter (\<lambda>a. att_key a = ''User:555'') (attempts backfill_partial_failure))
       = [1, 2, 3]"
    by code_simp+
  from 1 2 3 show ?thesis by (intro conjI)
qed




end
